theory Spec2Isabelle
  imports Main "HOL-Library.AList" "HOL-Library.Monad_Syntax"
begin

section \<open>Data model of a Perfect Tense result\<close>

text \<open>
  The result of a job is a JSON object that \<^verbatim>\<open>setMetaData\<close> decorates in place and
  that the accept/reject/undo functions mutate afterwards.  Objects become records, the
  fields that are absent before the metadata pass become options (\<open>None\<close> is JavaScript's
  \<^verbatim>\<open>undefined\<close>), and every function takes the document and returns the updated one.

  A call that throws a \<^verbatim>\<open>TypeError\<close> in JavaScript (a property read on
  \<^verbatim>\<open>undefined\<close>) returns \<open>None\<close>; the state such a call leaves behind is not
  modelled.
\<close>

record token =
  id_token :: nat
  value_token :: string
  after_token :: string

datatype status = accept | reject | clean

record transformation =
  tokensAffected :: "token list"
  tokensAdded :: "token list"
  hasReplacement :: bool
  isSuggestion :: bool
  status :: "status option"
  isAvailable :: "bool option"
  groupId :: "nat option"
  transformIndex :: "nat option"
  indexInSentence :: "nat option"
  sentenceIndex :: "nat option"

text \<open>
  A sentence owns its transformation objects; \<^verbatim>\<open>sentence.groups\<close> holds further
  references to the same objects.  A reference to a transformation of a sentence is its
  position in \<^verbatim>\<open>sentence.transformations\<close>, so a group is a list of positions.
  \<open>activeTokens\<close> is absent before \<^verbatim>\<open>setMetaData\<close>, which overwrites it without
  reading it.
\<close>

record sentence =
  originalSentence :: "token list"
  activeTokens :: "token list"
  transformations :: "transformation list"
  groups :: "(nat \<times> nat list) list"
  sentenceIndex_s :: "nat option"

record document =
  rulesApplied :: "sentence list option"
  hasMeta :: bool

text \<open>A transformation object of a document: (position of its sentence, position in it).\<close>

type_synonym tref = "nat \<times> nat"

definition getSentence :: "document \<Rightarrow> nat \<Rightarrow> sentence option" where
  "getSentence data i =
     (case rulesApplied data of
        None \<Rightarrow> None
      | Some ss \<Rightarrow> if i < length ss then Some (ss ! i) else None)"

definition getTransform :: "document \<Rightarrow> tref \<Rightarrow> transformation option" where
  "getTransform data r =
     (case getSentence data (fst r) of
        None \<Rightarrow> None
      | Some s \<Rightarrow> if snd r < length (transformations s) then Some (transformations s ! snd r) else None)"

definition updSentence :: "nat \<Rightarrow> (sentence \<Rightarrow> sentence) \<Rightarrow> document \<Rightarrow> document" where
  "updSentence i f data =
     (case rulesApplied data of
        None \<Rightarrow> data
      | Some ss \<Rightarrow> if i < length ss then data\<lparr>rulesApplied := Some (ss[i := f (ss ! i)])\<rparr> else data)"

definition updTransformIn :: "nat \<Rightarrow> (transformation \<Rightarrow> transformation) \<Rightarrow> sentence \<Rightarrow> sentence" where
  "updTransformIn j f s =
     (if j < length (transformations s)
      then s\<lparr>transformations := (transformations s)[j := f (transformations s ! j)]\<rparr>
      else s)"

definition updTransform :: "tref \<Rightarrow> (transformation \<Rightarrow> transformation) \<Rightarrow> document \<Rightarrow> document" where
  "updTransform r f data = updSentence (fst r) (updTransformIn (snd r) f) data"

section \<open>Token stream utilities\<close>

text \<open>\<^verbatim>\<open>Array.prototype.findIndex\<close>: the first position that satisfies the test; \<open>None\<close> is \<open>-1\<close>.\<close>

fun findIndex :: "('a \<Rightarrow> bool) \<Rightarrow> 'a list \<Rightarrow> nat option" where
  "findIndex P [] = None"
| "findIndex P (x # xs) = (if P x then Some 0 else map_option Suc (findIndex P xs))"

text \<open>The body of \<^verbatim>\<open>tokens.every(...)\<close> in \<^verbatim>\<open>tokensArePresent\<close>, with its variable \<^verbatim>\<open>lastIndex\<close>.\<close>

fun everyPresent :: "int \<Rightarrow> token list \<Rightarrow> token list \<Rightarrow> bool" where
  "everyPresent lastIndex [] allTokens = True"
| "everyPresent lastIndex (tok # rest) allTokens =
     (case findIndex (\<lambda>activeToken. id_token tok = id_token activeToken) allTokens of
        None \<Rightarrow> False
      | Some indexOfId \<Rightarrow>
          if lastIndex = -1 \<or> int indexOfId = lastIndex + 1
          then everyPresent (int indexOfId) rest allTokens
          else False)"

definition tokensArePresent :: "token list \<Rightarrow> token list \<Rightarrow> bool" where
  "tokensArePresent tokens allTokens = everyPresent (-1) tokens allTokens"

definition tokensToString :: "token list \<Rightarrow> string" where
  "tokensToString tokens = concat (map (\<lambda>tok. value_token tok @ after_token tok) tokens)"

text \<open>
  \<^verbatim>\<open>replaceTokens\<close>.  With an empty \<^verbatim>\<open>affected\<close> the presence test passes and
  \<^verbatim>\<open>affected[0].id\<close> throws.
\<close>

definition replaceTokens :: "token list \<Rightarrow> token list \<Rightarrow> token list \<Rightarrow> token list option" where
  "replaceTokens tokens affected added =
     (if \<not> tokensArePresent affected tokens then Some tokens
      else if affected = [] then None
      else
        let firstTokenId = id_token (hd affected);
            lastTokenId = id_token (last affected);
            startInd = findIndex (\<lambda>tok. id_token tok = firstTokenId) tokens;
            endInd = findIndex (\<lambda>tok. id_token tok = lastTokenId) tokens
        in case (startInd, endInd) of
             (Some s, Some e) \<Rightarrow>
               if e \<ge> s then Some (take s tokens @ added @ drop (e + 1) tokens) else Some tokens
           | _ \<Rightarrow> Some tokens)"

definition arraysOverlap :: "'a list \<Rightarrow> 'b list \<Rightarrow> ('a \<Rightarrow> 'b \<Rightarrow> bool) \<Rightarrow> bool" where
  "arraysOverlap a1 a2 comparator = list_ex (\<lambda>e1. list_ex (\<lambda>e2. comparator e1 e2) a2) a1"

definition compareTokens :: "token \<Rightarrow> token \<Rightarrow> bool" where
  "compareTokens t1 t2 = (id_token t1 = id_token t2)"

definition transformsOverlap :: "transformation \<Rightarrow> transformation \<Rightarrow> bool \<Rightarrow> bool" where
  "transformsOverlap t1 t2 inOrder =
     (arraysOverlap (tokensAffected t1) (tokensAffected t2) compareTokens \<or>
      arraysOverlap (tokensAdded t1) (tokensAffected t2) compareTokens \<or>
      (\<not> inOrder \<and> arraysOverlap (tokensAdded t2) (tokensAffected t1) compareTokens))"

section \<open>Status and availability\<close>

definition isClean :: "transformation \<Rightarrow> bool" where
  "isClean transform = (status transform = Some clean)"

definition isAccepted :: "transformation \<Rightarrow> bool" where
  "isAccepted transform = (status transform = Some accept)"

definition isRejected :: "transformation \<Rightarrow> bool" where
  "isRejected transform = (status transform = Some reject)"

definition canMakeTransform :: "sentence \<Rightarrow> transformation \<Rightarrow> bool" where
  "canMakeTransform sentence transform =
     tokensArePresent (tokensAffected transform) (activeTokens sentence)"

definition canUndoTransform :: "sentence \<Rightarrow> transformation \<Rightarrow> bool" where
  "canUndoTransform sentence transform =
     (\<not> hasReplacement transform \<or>
      (isAccepted transform \<and> tokensArePresent (tokensAdded transform) (activeTokens sentence)) \<or>
      (isRejected transform \<and> tokensArePresent (tokensAffected transform) (activeTokens sentence)))"

text \<open>
  \<^verbatim>\<open>setIsAvailable(transforms, sentence)\<close>: the transformations are objects of the
  sentence, given by their positions.
\<close>

definition setAvailable :: "nat \<Rightarrow> sentence \<Rightarrow> sentence" where
  "setAvailable j sentence =
     updTransformIn j (\<lambda>transform.
        if canMakeTransform sentence transform
        then transform\<lparr>isAvailable := Some True\<rparr>
        else transform\<lparr>isAvailable := Some False\<rparr>) sentence"

definition setIsAvailable :: "nat list \<Rightarrow> sentence \<Rightarrow> sentence" where
  "setIsAvailable transforms sentence = fold setAvailable transforms sentence"

section \<open>Making and undoing a transformation\<close>

text \<open>
  In the functions below a sentence object is the position \<open>k\<close> of the sentence in
  \<^verbatim>\<open>data.rulesApplied\<close> and a transformation object is a \<open>tref\<close>.  The group table
  of sentence \<open>k\<close> refers to transformations of sentence \<open>k\<close>.
\<close>

definition updateTokenGroup :: "nat \<Rightarrow> transformation \<Rightarrow> document \<Rightarrow> document option" where
  "updateTokenGroup k transform data =
     do {
       sentence \<leftarrow> getSentence data k;
       gid \<leftarrow> groupId transform;
       tokenGroup \<leftarrow> map_of (groups sentence) gid;
       Some (updSentence k (setIsAvailable tokenGroup) data)
     }"

definition makeTransform :: "nat \<Rightarrow> tref \<Rightarrow> document \<Rightarrow> document option" where
  "makeTransform k r data =
     do {
       sentence \<leftarrow> getSentence data k;
       transform \<leftarrow> getTransform data r;
       data2 \<leftarrow>
         (if hasReplacement transform
          then do {
            toks \<leftarrow> replaceTokens (activeTokens sentence) (tokensAffected transform) (tokensAdded transform);
            updateTokenGroup k transform (updSentence k (\<lambda>s. s\<lparr>activeTokens := toks\<rparr>) data)
          }
          else Some data);
       Some (updTransform r (\<lambda>t. t\<lparr>isAvailable := Some False\<rparr>) data2)
     }"

definition undoTransform :: "nat \<Rightarrow> tref \<Rightarrow> document \<Rightarrow> document option" where
  "undoTransform k r data =
     do {
       sentence \<leftarrow> getSentence data k;
       transform \<leftarrow> getTransform data r;
       data2 \<leftarrow>
         (if hasReplacement transform
          then do {
            toks \<leftarrow> replaceTokens (activeTokens sentence) (tokensAdded transform) (tokensAffected transform);
            updateTokenGroup k transform (updSentence k (\<lambda>s. s\<lparr>activeTokens := toks\<rparr>) data)
          }
          else Some data);
       Some (updTransform r (\<lambda>t. t\<lparr>isAvailable := Some True\<rparr>) data2)
     }"

definition updateActiveTokens :: "sentence \<Rightarrow> transformation \<Rightarrow> sentence option" where
  "updateActiveTokens sentence transform =
     (if hasReplacement transform \<and> isAccepted transform
      then do {
        toks \<leftarrow> replaceTokens (activeTokens sentence) (tokensAffected transform) (tokensAdded transform);
        Some (sentence\<lparr>activeTokens := toks\<rparr>)
      }
      else Some sentence)"

section \<open>Offsets\<close>

fun offsetFind :: "token \<Rightarrow> string \<Rightarrow> token list \<Rightarrow> int" where
  "offsetFind firstAffected sentString [] = -1"
| "offsetFind firstAffected sentString (tok # rest) =
     (if id_token tok = id_token firstAffected then int (length sentString)
      else offsetFind firstAffected (sentString @ value_token tok @ after_token tok) rest)"

text \<open>
  With no affected token, \<^verbatim>\<open>firstAffected\<close> is \<^verbatim>\<open>undefined\<close> and the callback of
  \<^verbatim>\<open>find\<close> throws on the first active token.
\<close>

definition getTransformOffsetHelper :: "transformation \<Rightarrow> token list \<Rightarrow> int option" where
  "getTransformOffsetHelper transform activeToks =
     (case tokensAffected transform of
        [] \<Rightarrow> if activeToks = [] then Some (-1) else None
      | firstAffected # _ \<Rightarrow> Some (offsetFind firstAffected [] activeToks))"

definition getTransformOffset :: "document \<Rightarrow> transformation \<Rightarrow> int option" where
  "getTransformOffset data transform =
     do {
       k \<leftarrow> sentenceIndex transform;
       sentence \<leftarrow> getSentence data k;
       if canMakeTransform sentence transform
       then getTransformOffsetHelper transform (activeTokens sentence)
       else Some (-1)
     }"

text \<open>
  What \<^verbatim>\<open>getSentenceOffset\<close> returns: the value of \<^verbatim>\<open>data.rulesApplied.find(...)\<close>,
  which is the element found or \<^verbatim>\<open>undefined\<close>.  The callback maintains
  \<^verbatim>\<open>fullText\<close> and \<^verbatim>\<open>offset\<close>; the statement \<^verbatim>\<open>return offset\<close> after the
  first \<^verbatim>\<open>return\<close> is never reached.
\<close>

datatype jsvalue = Undefined | Number int | SentenceObject sentence

fun sentenceFind :: "sentence \<Rightarrow> nat \<Rightarrow> string \<Rightarrow> int \<Rightarrow> sentence list \<Rightarrow> sentence option \<times> int" where
  "sentenceFind sentence sentIndex fullText offset [] = (None, offset)"
| "sentenceFind sentence sentIndex fullText offset (s # rest) =
     (if Some sentIndex = sentenceIndex_s sentence then (Some s, int (length fullText))
      else sentenceFind sentence (sentIndex + 1) (fullText @ tokensToString (activeTokens s)) offset rest)"

definition getSentenceOffset :: "document \<Rightarrow> sentence \<Rightarrow> jsvalue option" where
  "getSentenceOffset data sentence =
     do {
       ss \<leftarrow> rulesApplied data;
       case fst (sentenceFind sentence 0 [] (-1) ss) of
         None \<Rightarrow> Some Undefined
       | Some s \<Rightarrow> Some (SentenceObject s)
     }"

section \<open>Accept, reject, reset\<close>

text \<open>
  Each function returns the boolean of the source and the document after the call.
  Saving the status (\<^verbatim>\<open>saveTransformStatus\<close>) posts to the remote service and changes
  nothing in the document; what remains of it is the offset computed for it.  In
  \<^verbatim>\<open>resetCorrection\<close> that offset is computed only when \<^verbatim>\<open>pt.persist\<close> is set, so
  the flag is a parameter there.

  \<^verbatim>\<open>data.rulesApplied[transform.sentenceIndex]\<close> is \<^verbatim>\<open>undefined\<close> where
  \<^verbatim>\<open>transform.sentenceIndex\<close> names no sentence.  \<^verbatim>\<open>acceptCorrection\<close> and
  \<^verbatim>\<open>rejectCorrection\<close> then throw in \<^verbatim>\<open>getCurrentSentenceText(sentence)\<close>, once they are
  past the guard.  \<^verbatim>\<open>resetCorrection\<close> reads the sentence later: \<^verbatim>\<open>canUndoTransform\<close>
  reads \<^verbatim>\<open>sentence.activeTokens\<close> only for an accepted or rejected transformation with a
  replacement, \<^verbatim>\<open>undoTransform\<close> touches the sentence only for a transformation with a
  replacement, and \<^verbatim>\<open>getCurrentSentenceText(sentence)\<close> is called only when persisting.
\<close>

definition acceptCorrection :: "document \<Rightarrow> tref \<Rightarrow> (bool \<times> document) option" where
  "acceptCorrection data r =
     do {
       transform \<leftarrow> getTransform data r;
       if isAvailable transform = Some True
       then do {
         k \<leftarrow> sentenceIndex transform;
         sentence \<leftarrow> getSentence data k;
         offset \<leftarrow> getTransformOffset data transform;
         data2 \<leftarrow> makeTransform k r data;
         Some (True, updTransform r (\<lambda>t. t\<lparr>status := Some accept\<rparr>) data2)
       }
       else Some (False, data)
     }"

definition rejectCorrection :: "document \<Rightarrow> tref \<Rightarrow> (bool \<times> document) option" where
  "rejectCorrection data r =
     do {
       transform \<leftarrow> getTransform data r;
       if isAvailable transform = Some True
       then do {
         k \<leftarrow> sentenceIndex transform;
         sentence \<leftarrow> getSentence data k;
         offset \<leftarrow> getTransformOffset data transform;
         Some (True, updTransform r (\<lambda>t. t\<lparr>status := Some reject, isAvailable := Some False\<rparr>) data)
       }
       else Some (False, data)
     }"

text \<open>The sentence \<^verbatim>\<open>data.rulesApplied[transform.sentenceIndex]\<close> with its position, if there is one.\<close>

definition sentenceOf :: "document \<Rightarrow> transformation \<Rightarrow> (nat \<times> sentence) option" where
  "sentenceOf data transform =
     (case sentenceIndex transform of
        None \<Rightarrow> None
      | Some k \<Rightarrow> map_option (Pair k) (getSentence data k))"

definition resetCorrection :: "bool \<Rightarrow> document \<Rightarrow> tref \<Rightarrow> (bool \<times> document) option" where
  "resetCorrection persist data r =
     do {
       transform \<leftarrow> getTransform data r;
       (case sentenceOf data transform of
          Some (k, sentence) \<Rightarrow>
            (if canUndoTransform sentence transform
             then do {
               data2 \<leftarrow> undoTransform k r data;
               let data3 = updTransform r (\<lambda>t. t\<lparr>status := Some clean\<rparr>) data2;
               offset \<leftarrow> (if persist then do { t3 \<leftarrow> getTransform data3 r; getTransformOffset data3 t3 } else Some 0);
               Some (True, data3)
             }
             else Some (False, data))
        | None \<Rightarrow>
            (if \<not> hasReplacement transform
             then (if persist then None
                   else Some (True, updTransform r (\<lambda>t. t\<lparr>status := Some clean\<rparr>)
                                     (updTransform r (\<lambda>t. t\<lparr>isAvailable := Some True\<rparr>) data)))
             else if isAccepted transform \<or> isRejected transform then None
             else Some (False, data)))
     }"

section \<open>The metadata pass\<close>

text \<open>
  One step of the \<^verbatim>\<open>for\<close> loop that scans the transformations after
  \<^verbatim>\<open>nextInGroup\<close>: it writes \<^verbatim>\<open>indexInSentence\<close> and pushes an ungrouped,
  overlapping transformation onto the queue.
\<close>

definition scanStep :: "transformation \<Rightarrow> nat \<Rightarrow> transformation list \<times> nat list \<Rightarrow> transformation list \<times> nat list" where
  "scanStep nextInGroup i st =
     (let ts = (fst st)[i := (fst st ! i)\<lparr>indexInSentence := Some i\<rparr>];
          nextTrans = ts ! i
      in if groupId nextTrans = None \<and> transformsOverlap nextInGroup nextTrans True
         then (ts, snd st @ [i])
         else (ts, snd st))"

text \<open>
  The whole \<^verbatim>\<open>for\<close> loop.  An absent \<^verbatim>\<open>indexInSentence\<close> makes the start index
  \<^verbatim>\<open>NaN\<close>, and the loop runs no step.
\<close>

definition scanLater :: "transformation \<Rightarrow> nat \<Rightarrow> transformation list \<times> nat list \<Rightarrow> transformation list \<times> nat list" where
  "scanLater nextInGroup numTransformsInSent st =
     (case indexInSentence nextInGroup of
        None \<Rightarrow> st
      | Some k \<Rightarrow> fold (scanStep nextInGroup) [k + 1 ..< numTransformsInSent] st)"

definition groupsPush :: "nat \<Rightarrow> nat \<Rightarrow> (nat \<times> nat list) list \<Rightarrow> (nat \<times> nat list) list" where
  "groupsPush gid j gs =
     (case map_of gs gid of
        None \<Rightarrow> gs
      | Some members \<Rightarrow> AList.update gid (members @ [j]) gs)"

definition ungrouped :: "transformation list \<Rightarrow> nat" where
  "ungrouped ts = length (filter (\<lambda>g. g = None) (map groupId ts))"

text \<open>
  The \<^verbatim>\<open>while\<close> loop over \<^verbatim>\<open>groupQueue\<close>; the queue holds positions of
  transformations of the sentence, which are always in range.
\<close>

function groupLoop :: "nat \<Rightarrow> nat \<Rightarrow> sentence \<Rightarrow> nat list \<Rightarrow> sentence" where
  "groupLoop gid numTransformsInSent sentence [] = sentence"
| "groupLoop gid numTransformsInSent sentence (j # groupQueue) =
     (if j < length (transformations sentence) \<and> groupId (transformations sentence ! j) = None
      then
        let nextInGroup = (transformations sentence ! j)\<lparr>groupId := Some gid\<rparr>;
            ts1 = (transformations sentence)[j := nextInGroup];
            groups1 = groupsPush gid j (groups sentence);
            scanned = scanLater nextInGroup numTransformsInSent (ts1, groupQueue)
        in groupLoop gid numTransformsInSent
             (sentence\<lparr>transformations := fst scanned, groups := groups1\<rparr>) (snd scanned)
      else groupLoop gid numTransformsInSent sentence groupQueue)"
  by pat_completeness auto
termination
proof (relation "inv_image (less_than <*lex*> less_than)
                   (\<lambda>(gid, n, s, q). (ungrouped (transformations s), length q))")
  show "wf (inv_image (less_than <*lex*> less_than)
             (\<lambda>(gid, n, s, q). (ungrouped (transformations s), length q)))"
    by (intro wf_inv_image wf_lex_prod wf_less_than)
next
  fix gid n :: nat and sentence :: sentence and j :: nat and groupQueue :: "nat list"
    and nextInGroup ts1 groups1 scanned
  assume a: "j < length (transformations sentence) \<and> groupId (transformations sentence ! j) = None"
    and n: "nextInGroup = (transformations sentence ! j)\<lparr>groupId := Some gid\<rparr>"
    and t: "ts1 = (transformations sentence)[j := nextInGroup]"
    and s: "scanned = scanLater nextInGroup n (ts1, groupQueue)"
  have same: "(map groupId xs)[i := groupId (xs ! i)] = map groupId xs"
    for xs :: "transformation list" and i
    by (simp add: map_update[symmetric])
  have step: "map groupId (fst (scanStep x i st)) = map groupId (fst st)" for x i st
    by (simp add: scanStep_def Let_def map_update same)
  have fold_eq: "map groupId (fst (fold (scanStep x) is st)) = map groupId (fst st)" for x "is" st
    by (induction "is" arbitrary: st) (simp_all add: step)
  have "map groupId (fst scanned) = map groupId ts1"
    unfolding s scanLater_def by (simp add: fold_eq split: option.split)
  then have "ungrouped (fst scanned) = ungrouped ts1"
    unfolding ungrouped_def by simp
  moreover have dec: "xs ! i = None \<Longrightarrow> i < length xs \<Longrightarrow>
      length (filter (\<lambda>g. g = None) (xs[i := Some v])) < length (filter (\<lambda>g. g = None) xs)"
    for xs :: "nat option list" and i v
  proof (induction xs arbitrary: i)
    case Nil
    then show ?case by simp
  next
    case (Cons x xs)
    show ?case
    proof (cases i)
      case 0
      with Cons.prems show ?thesis by simp
    next
      case (Suc k)
      with Cons.prems have "xs ! k = None" "k < length xs" by simp_all
      from Cons.IH[OF this] show ?thesis using Suc by simp
    qed
  qed
  have "ungrouped ts1 < ungrouped (transformations sentence)"
    unfolding ungrouped_def t n using a dec[of "map groupId (transformations sentence)" j gid]
    by (simp add: map_update)
  ultimately show "((gid, n, sentence\<lparr>transformations := fst scanned, groups := groups1\<rparr>, snd scanned),
                    (gid, n, sentence, j # groupQueue))
      \<in> inv_image (less_than <*lex*> less_than)
           (\<lambda>(gid, n, s, q). (ungrouped (transformations s), length q))"
    by simp
next
  fix gid n :: nat and sentence :: sentence and j :: nat and groupQueue :: "nat list"
  show "((gid, n, sentence, groupQueue), (gid, n, sentence, j # groupQueue))
      \<in> inv_image (less_than <*lex*> less_than)
           (\<lambda>(gid, n, s, q). (ungrouped (transformations s), length q))"
    by simp
qed

declare groupLoop.simps(2) [simp del]

text \<open>
  The callback of \<^verbatim>\<open>sentence.transformations.forEach\<close>, at position \<open>i\<close> of sentence
  number \<open>sentIndex\<close>, with the counters \<^verbatim>\<open>transformCounter\<close> and
  \<^verbatim>\<open>groupIdCounter\<close>.
\<close>

definition initTransform :: "nat \<Rightarrow> nat \<Rightarrow> nat \<Rightarrow> transformation \<Rightarrow> transformation" where
  "initTransform transformCounter i sentIndex transform =
     (let t1 = transform\<lparr>transformIndex := Some transformCounter,
                           indexInSentence := Some i,
                           sentenceIndex := Some sentIndex\<rparr>
      in if status t1 = None then t1\<lparr>status := Some clean\<rparr> else t1)"

definition visitTransform :: "nat \<Rightarrow> nat \<Rightarrow> nat \<Rightarrow> sentence \<times> nat \<times> nat \<Rightarrow> (sentence \<times> nat \<times> nat) option" where
  "visitTransform sentIndex numTransformsInSent i st =
     (case st of (sentence, transformCounter, groupIdCounter) \<Rightarrow>
        do {
          let s1 = updTransformIn i (initTransform transformCounter i sentIndex) sentence;
          s2 \<leftarrow> updateActiveTokens s1 (transformations s1 ! i);
          if groupId (transformations s2 ! i) = None
          then Some (groupLoop groupIdCounter numTransformsInSent
                       (s2\<lparr>groups := AList.update groupIdCounter [] (groups s2)\<rparr>) [i],
                     transformCounter + 1, groupIdCounter + 1)
          else Some (s2, transformCounter + 1, groupIdCounter)
        })"

fun forEachTransform :: "nat \<Rightarrow> nat \<Rightarrow> nat list \<Rightarrow> sentence \<times> nat \<times> nat \<Rightarrow> (sentence \<times> nat \<times> nat) option" where
  "forEachTransform sentIndex n [] st = Some st"
| "forEachTransform sentIndex n (i # rest) st =
     do {
       st' \<leftarrow> visitTransform sentIndex n i st;
       forEachTransform sentIndex n rest st'
     }"

text \<open>The callback of \<^verbatim>\<open>data.rulesApplied.forEach\<close>; it returns the sentence and the counter.\<close>

definition initSentence :: "nat \<Rightarrow> nat \<Rightarrow> sentence \<Rightarrow> (sentence \<times> nat) option" where
  "initSentence sentIndex transformCounter sentence0 =
     do {
       let sentence = sentence0\<lparr>activeTokens := originalSentence sentence0,
                                 groups := [],
                                 sentenceIndex_s := Some sentIndex\<rparr>;
       let n = length (transformations sentence);
       st \<leftarrow> forEachTransform sentIndex n [0 ..< n] (sentence, transformCounter, 0);
       Some (setIsAvailable [0 ..< n] (fst st), fst (snd st))
     }"

fun forEachSentence :: "nat \<Rightarrow> nat \<Rightarrow> sentence list \<Rightarrow> sentence list option" where
  "forEachSentence sentIndex transformCounter [] = Some []"
| "forEachSentence sentIndex transformCounter (s # rest) =
     do {
       r \<leftarrow> initSentence sentIndex transformCounter s;
       rest' \<leftarrow> forEachSentence (sentIndex + 1) (snd r) rest;
       Some (fst r # rest')
     }"

definition setMetaData :: "document \<Rightarrow> document option" where
  "setMetaData data =
     (case rulesApplied data of
        None \<Rightarrow> Some data
      | Some ss \<Rightarrow>
          do {
            ss' \<leftarrow> forEachSentence 0 0 ss;
            Some (data\<lparr>rulesApplied := Some ss', hasMeta := True\<rparr>)
          })"

section \<open>The interactive editor\<close>

text \<open>
  The closure variables of \<^verbatim>\<open>interactiveEditor\<close>.  \<^verbatim>\<open>flattenedTransforms\<close>,
  \<^verbatim>\<open>transformStack\<close> and \<^verbatim>\<open>allAvailableTransforms\<close> hold references to the
  transformation objects of \<^verbatim>\<open>data\<close>.
\<close>

record editor =
  data :: document
  ignoreNoReplacement :: bool
  flattenedTransforms :: "tref list"
  transformStack :: "tref list"
  transStackSize :: nat
  allAvailableTransforms :: "tref list"

definition flattenTransforms :: "sentence list \<Rightarrow> tref list" where
  "flattenTransforms ss =
     concat (map (\<lambda>si. map (\<lambda>ti. (si, ti)) [0 ..< length (transformations (ss ! si))]) [0 ..< length ss])"

definition availableInCache :: "document \<Rightarrow> bool \<Rightarrow> tref \<Rightarrow> bool" where
  "availableInCache d ignoreNoRepl r =
     (case getTransform d r of
        None \<Rightarrow> False
      | Some transform \<Rightarrow> isAvailable transform = Some True \<and> (\<not> ignoreNoRepl \<or> hasReplacement transform))"

definition updateAvailableCache :: "editor \<Rightarrow> editor" where
  "updateAvailableCache e =
     e\<lparr>allAvailableTransforms :=
         filter (availableInCache (data e) (ignoreNoReplacement e)) (flattenedTransforms e)\<rparr>"

definition notClean :: "document \<Rightarrow> tref \<Rightarrow> bool" where
  "notClean d r = (case getTransform d r of None \<Rightarrow> False | Some transform \<Rightarrow> \<not> isClean transform)"

definition interactiveEditor :: "document \<Rightarrow> bool \<Rightarrow> editor option" where
  "interactiveEditor data0 ignoreNoRepl =
     do {
       d \<leftarrow> (if \<not> hasMeta data0 then setMetaData data0 else Some data0);
       ss \<leftarrow> rulesApplied d;
       let flattened = flattenTransforms ss;
       let stack = filter (notClean d) flattened;
       Some (updateAvailableCache
               \<lparr>data = d, ignoreNoReplacement = ignoreNoRepl, flattenedTransforms = flattened,
                transformStack = stack, transStackSize = length stack, allAvailableTransforms = []\<rparr>)
     }"

definition notSuggestion :: "document \<Rightarrow> tref \<Rightarrow> bool" where
  "notSuggestion d r = (case getTransform d r of None \<Rightarrow> False | Some transform \<Rightarrow> \<not> isSuggestion transform)"

definition getNextNonSuggestion :: "editor \<Rightarrow> tref option" where
  "getNextNonSuggestion e = find (notSuggestion (data e)) (allAvailableTransforms e)"

definition hasNextTransform :: "bool \<Rightarrow> editor \<Rightarrow> bool" where
  "hasNextTransform ignoreSuggestions e =
     (if ignoreSuggestions then getNextNonSuggestion e \<noteq> None
      else length (allAvailableTransforms e) > 0)"

definition getNextTransform :: "bool \<Rightarrow> editor \<Rightarrow> tref option" where
  "getNextTransform ignoreSuggestions e =
     (if ignoreSuggestions then getNextNonSuggestion e
      else case allAvailableTransforms e of [] \<Rightarrow> None | r # _ \<Rightarrow> Some r)"

text \<open>\<^verbatim>\<open>editor.acceptCorrection\<close>, \<^verbatim>\<open>editor.rejectCorrection\<close> and \<^verbatim>\<open>editor.undoLastTransform\<close>.\<close>

definition pushAction :: "tref \<Rightarrow> document \<Rightarrow> editor \<Rightarrow> editor" where
  "pushAction r d e =
     (updateAvailableCache (e\<lparr>data := d\<rparr>))
       \<lparr>transformStack := transformStack e @ [r], transStackSize := transStackSize e + 1\<rparr>"

definition editor_acceptCorrection :: "tref \<Rightarrow> editor \<Rightarrow> (bool \<times> editor) option" where
  "editor_acceptCorrection r e =
     do {
       res \<leftarrow> acceptCorrection (data e) r;
       if fst res then Some (True, pushAction r (snd res) e) else Some (False, e)
     }"

definition editor_rejectCorrection :: "tref \<Rightarrow> editor \<Rightarrow> (bool \<times> editor) option" where
  "editor_rejectCorrection r e =
     do {
       res \<leftarrow> rejectCorrection (data e) r;
       if fst res then Some (True, pushAction r (snd res) e) else Some (False, e)
     }"

definition undoLastTransform :: "bool \<Rightarrow> editor \<Rightarrow> (bool \<times> editor) option" where
  "undoLastTransform persist e =
     (if transStackSize e > 0
      then
        if transStackSize e - 1 < length (transformStack e)
        then do {
          let lastTransform = transformStack e ! (transStackSize e - 1);
          res \<leftarrow> resetCorrection persist (data e) lastTransform;
          if fst res
          then Some (True, (updateAvailableCache (e\<lparr>data := snd res\<rparr>))
                             \<lparr>transformStack := butlast (transformStack e),
                              transStackSize := transStackSize e - 1\<rparr>)
          else Some (False, e)
        }
        else None
      else Some (False, e))"

text \<open>
  \<^verbatim>\<open>editor.applyAll\<close>.  The loop may run forever, which is the value \<open>None\<close>; a
  \<^verbatim>\<open>TypeError\<close> ends it with no editor.  The last argument records the
  transformations that \<^verbatim>\<open>editor.acceptCorrection\<close> has been called with, as they
  were at the call.
\<close>

partial_function (option) applyAll :: "bool \<Rightarrow> editor \<Rightarrow> transformation list \<Rightarrow> (editor option \<times> transformation list) option" where
  "applyAll ignoreSuggestions e calls =
     (if hasNextTransform ignoreSuggestions e
      then
        case getNextTransform ignoreSuggestions e of
          None \<Rightarrow> Some (None, calls)
        | Some r \<Rightarrow>
            (case getTransform (data e) r of
               None \<Rightarrow> Some (None, calls)
             | Some transform \<Rightarrow>
                 (case editor_acceptCorrection r e of
                    None \<Rightarrow> Some (None, calls @ [transform])
                  | Some res \<Rightarrow> applyAll ignoreSuggestions (snd res) (calls @ [transform])))
      else Some (Some e, calls))"

declare applyAll.simps [code]

text \<open>
  The properties of the object \<^verbatim>\<open>editor\<close>: the keys of the object literal and the
  three functions assigned afterwards.  All of them are functions, so a property read is
  truthy exactly when the name is one of them.
\<close>

definition editorProperties :: "string list" where
  "editorProperties =
     [''getGrammarScore'', ''getData'', ''getUsage'', ''getTransform'', ''getSentence'',
      ''getSentenceFromTransform'', ''getAllAvailableTransforms'', ''hasNextTransform'',
      ''getNextTransform'', ''getOverlappingTransforms'', ''getCurrentText'',
      ''getCurrentSentenceText'', ''acceptCorrection'', ''rejectCorrection'',
      ''undoLastTransform'', ''canMakeTransform'', ''canUndoLastTransform'',
      ''getLastTransform'', ''getTransformOffset'', ''getSentenceOffset'', ''getAffectedText'',
      ''getAddedText'', ''getOriginalText'', ''getAllClean'', ''getNumSentences'',
      ''getNumTransformations'', ''applyAll'', ''undoAll'', ''getTransformDocumentOffset'']"

definition editorPropertyTruthy :: "string \<Rightarrow> bool" where
  "editorPropertyTruthy name = (name \<in> set editorProperties)"

text \<open>\<^verbatim>\<open>editor.undoAll\<close>: the loop condition is the property read \<^verbatim>\<open>editor.canUndoTransform\<close>.\<close>

partial_function (option) undoAll :: "bool \<Rightarrow> editor \<Rightarrow> editor option option" where
  "undoAll persist e =
     (if editorPropertyTruthy ''canUndoTransform''
      then
        case undoLastTransform persist e of
          None \<Rightarrow> Some None
        | Some res \<Rightarrow> undoAll persist (snd res)
      else Some (Some e))"

declare undoAll.simps [code]

section \<open>Notions used to state the properties, and example documents\<close>

text \<open>
  Replaying the accepted transformations of a sentence from its original tokens, in the
  order of \<^verbatim>\<open>sentence.transformations\<close> (which is the order of \<^verbatim>\<open>transformIndex\<close>),
  with the step \<^verbatim>\<open>updateActiveTokens\<close> that \<^verbatim>\<open>setMetaData\<close> itself uses.
\<close>

fun replayAccepted :: "transformation list \<Rightarrow> sentence \<Rightarrow> sentence option" where
  "replayAccepted [] sentence = Some sentence"
| "replayAccepted (transform # rest) sentence =
     do { s' \<leftarrow> updateActiveTokens sentence transform; replayAccepted rest s' }"

definition replayedTokens :: "sentence \<Rightarrow> token list option" where
  "replayedTokens sentence =
     map_option activeTokens
       (replayAccepted (transformations sentence)
          (sentence\<lparr>activeTokens := originalSentence sentence\<rparr>))"

definition groupIdsOf :: "document \<Rightarrow> nat option list list" where
  "groupIdsOf d =
     (case rulesApplied d of
        None \<Rightarrow> []
      | Some ss \<Rightarrow> map (\<lambda>s. map groupId (transformations s)) ss)"

text \<open>
  The situation in which \<^verbatim>\<open>acceptCorrection\<close> passes its guard on a transformation with a
  replacement although the affected tokens are not present, so that
  \<^verbatim>\<open>replaceTokens\<close> returns the stream as it is.
\<close>

definition passesGuardNotPresent :: "document \<Rightarrow> tref \<Rightarrow> bool" where
  "passesGuardNotPresent d r =
     (case getTransform d r of
        None \<Rightarrow> False
      | Some transform \<Rightarrow>
          (case getSentence d (fst r) of
             None \<Rightarrow> False
           | Some sentence \<Rightarrow>
               isAvailable transform = Some True \<and> hasReplacement transform \<and>
               \<not> tokensArePresent (tokensAffected transform) (activeTokens sentence) \<and>
               replaceTokens (activeTokens sentence) (tokensAffected transform) (tokensAdded transform)
                 = Some (activeTokens sentence)))"

text \<open>Documents as the service returns them: no metadata yet.\<close>

definition mkToken :: "nat \<Rightarrow> string \<Rightarrow> token" where
  "mkToken i v = \<lparr>id_token = i, value_token = v, after_token = '' ''\<rparr>"

definition mkTransformation :: "token list \<Rightarrow> token list \<Rightarrow> bool \<Rightarrow> bool \<Rightarrow> transformation" where
  "mkTransformation affected added hasRepl suggestion =
     \<lparr>tokensAffected = affected, tokensAdded = added, hasReplacement = hasRepl,
      isSuggestion = suggestion, status = None, isAvailable = None, groupId = None,
      transformIndex = None, indexInSentence = None, sentenceIndex = None\<rparr>"

definition mkSentence :: "token list \<Rightarrow> transformation list \<Rightarrow> sentence" where
  "mkSentence original ts =
     \<lparr>originalSentence = original, activeTokens = [], transformations = ts, groups = [],
      sentenceIndex_s = None\<rparr>"

definition mkDocument :: "sentence list \<Rightarrow> document" where
  "mkDocument ss = \<lparr>rulesApplied = Some ss, hasMeta = False\<rparr>"

text \<open>
  One sentence \<open>a b\<close> with three transformations: \<open>a \<rightarrow> x\<close> (a suggestion), \<open>b \<rightarrow> y\<close>,
  and \<open>a b \<rightarrow> z\<close>.  The third overlaps each of the first two.
\<close>

definition bridgeDoc :: document where
  "bridgeDoc = mkDocument
     [mkSentence [mkToken 1 ''a'', mkToken 2 ''b'']
        [mkTransformation [mkToken 1 ''a''] [mkToken 3 ''x''] True True,
         mkTransformation [mkToken 2 ''b''] [mkToken 4 ''y''] True False,
         mkTransformation [mkToken 1 ''a'', mkToken 2 ''b''] [mkToken 5 ''z''] True False]]"

text \<open>Accept the second transformation, accept the third, reset the second.\<close>

definition bridgeScenario :: "(bool \<times> bool \<times> bool \<times> document) option" where
  "bridgeScenario =
     do {
       d \<leftarrow> setMetaData bridgeDoc;
       r1 \<leftarrow> acceptCorrection d (0, 1);
       r2 \<leftarrow> acceptCorrection (snd r1) (0, 2);
       r3 \<leftarrow> resetCorrection True (snd r2) (0, 1);
       Some (fst r1, fst r2, fst r3, snd r3)
     }"

text \<open>An editor on \<open>bridgeDoc\<close> after its second transformation has been accepted.\<close>

definition bridgeEditor :: "editor option" where
  "bridgeEditor =
     do {
       e \<leftarrow> interactiveEditor bridgeDoc False;
       r \<leftarrow> editor_acceptCorrection (0, 1) e;
       Some (snd r)
     }"

text \<open>
  One sentence \<open>a\<close> with the transformation \<open>a \<rightarrow> b\<close> and, after it, a comment-only
  transformation (no replacement) on the token \<open>b\<close> that the first one adds.
\<close>

definition commentDoc :: document where
  "commentDoc = mkDocument
     [mkSentence [mkToken 1 ''a'']
        [mkTransformation [mkToken 1 ''a''] [mkToken 2 ''b''] True False,
         mkTransformation [mkToken 2 ''b''] [] False False]]"

text \<open>One sentence \<open>a b\<close> with a transformation that deletes \<open>b\<close>.\<close>

definition deletionDoc :: document where
  "deletionDoc = mkDocument
     [mkSentence [mkToken 1 ''a'', mkToken 2 ''b'']
        [mkTransformation [mkToken 2 ''b''] [] True False]]"

definition twoSentenceDoc :: document where
  "twoSentenceDoc = mkDocument
     [mkSentence [mkToken 1 ''a''] [], mkSentence [mkToken 2 ''b''] []]"

section \<open>Notions used in the proofs\<close>

subsection \<open>What the metadata pass leaves alone\<close>

text \<open>A projection of transformations that does not read the two fields the group search writes.\<close>

definition ignoresGrouping :: "(transformation \<Rightarrow> 'a) \<Rightarrow> bool" where
  "ignoresGrouping f = (\<forall>t a b. f (t\<lparr>groupId := a\<rparr>) = f t \<and> f (t\<lparr>indexInSentence := b\<rparr>) = f t)"

text \<open>
  The cached flag of the transformation at position \<open>j\<close> agrees with
  \<^verbatim>\<open>tokensArePresent(transform.tokensAffected, sentence.activeTokens)\<close>.
\<close>

definition flagAccurate :: "sentence \<Rightarrow> nat \<Rightarrow> bool" where
  "flagAccurate s j =
     (isAvailable (transformations s ! j)
        = Some (tokensArePresent (tokensAffected (transformations s ! j)) (activeTokens s)))"

subsection \<open>The operations on the sentence they act on\<close>

text \<open>
  Each operation changes one sentence of the document.  The definitions below are the
  operations as functions of that sentence; the lemmas \<open>acceptCorrection_sentence\<close>,
  \<open>rejectCorrection_sentence\<close> and \<open>resetCorrection_sentence\<close> relate them to the
  operations on documents.
\<close>

definition putSentence :: "nat \<Rightarrow> sentence \<Rightarrow> document \<Rightarrow> document" where
  "putSentence k s' d = updSentence k (\<lambda>_. s') d"

definition refreshGroupIn :: "nat \<Rightarrow> sentence \<Rightarrow> sentence option" where
  "refreshGroupIn j s =
     do {
       gid \<leftarrow> groupId (transformations s ! j);
       ms \<leftarrow> map_of (groups s) gid;
       Some (setIsAvailable ms s)
     }"

definition makeTransformIn :: "nat \<Rightarrow> sentence \<Rightarrow> sentence option" where
  "makeTransformIn j s =
     do {
       s2 \<leftarrow>
         (if hasReplacement (transformations s ! j)
          then do {
            toks \<leftarrow> replaceTokens (activeTokens s) (tokensAffected (transformations s ! j))
                      (tokensAdded (transformations s ! j));
            refreshGroupIn j (s\<lparr>activeTokens := toks\<rparr>)
          }
          else Some s);
       Some (updTransformIn j (\<lambda>t. t\<lparr>isAvailable := Some False\<rparr>) s2)
     }"

definition undoTransformIn :: "nat \<Rightarrow> sentence \<Rightarrow> sentence option" where
  "undoTransformIn j s =
     do {
       s2 \<leftarrow>
         (if hasReplacement (transformations s ! j)
          then do {
            toks \<leftarrow> replaceTokens (activeTokens s) (tokensAdded (transformations s ! j))
                      (tokensAffected (transformations s ! j));
            refreshGroupIn j (s\<lparr>activeTokens := toks\<rparr>)
          }
          else Some s);
       Some (updTransformIn j (\<lambda>t. t\<lparr>isAvailable := Some True\<rparr>) s2)
     }"

definition offsetIn :: "sentence \<Rightarrow> transformation \<Rightarrow> int option" where
  "offsetIn s t =
     (if canMakeTransform s t then getTransformOffsetHelper t (activeTokens s) else Some (-1))"

definition acceptIn :: "nat \<Rightarrow> sentence \<Rightarrow> (bool \<times> sentence) option" where
  "acceptIn j s =
     (if isAvailable (transformations s ! j) = Some True
      then do {
        offset \<leftarrow> offsetIn s (transformations s ! j);
        s2 \<leftarrow> makeTransformIn j s;
        Some (True, updTransformIn j (\<lambda>t. t\<lparr>status := Some accept\<rparr>) s2)
      }
      else Some (False, s))"

definition rejectIn :: "nat \<Rightarrow> sentence \<Rightarrow> (bool \<times> sentence) option" where
  "rejectIn j s =
     (if isAvailable (transformations s ! j) = Some True
      then do {
        offset \<leftarrow> offsetIn s (transformations s ! j);
        Some (True, updTransformIn j (\<lambda>t. t\<lparr>status := Some reject, isAvailable := Some False\<rparr>) s)
      }
      else Some (False, s))"

definition resetIn :: "bool \<Rightarrow> nat \<Rightarrow> sentence \<Rightarrow> (bool \<times> sentence) option" where
  "resetIn persist j s =
     (if canUndoTransform s (transformations s ! j)
      then do {
        s2 \<leftarrow> undoTransformIn j s;
        let s3 = updTransformIn j (\<lambda>t. t\<lparr>status := Some clean\<rparr>) s2;
        offset \<leftarrow> (if persist then offsetIn s3 (transformations s3 ! j) else Some 0);
        Some (True, s3)
      }
      else Some (False, s))"

subsection \<open>Accuracy of the availability flags\<close>

definition allFlagsAccurate :: "document \<Rightarrow> bool" where
  "allFlagsAccurate d =
     (case rulesApplied d of
        None \<Rightarrow> True
      | Some ss \<Rightarrow> list_all (\<lambda>s. list_all (flagAccurate s) [0 ..< length (transformations s)]) ss)"

text \<open>\<^verbatim>\<open>sentence.groups[transform.groupId]\<close> for the transformation at position \<open>j\<close>.\<close>

definition groupOf :: "sentence \<Rightarrow> nat \<Rightarrow> nat list" where
  "groupOf s j =
     (case groupId (transformations s ! j) of
        None \<Rightarrow> []
      | Some gid \<Rightarrow> (case map_of (groups s) gid of None \<Rightarrow> [] | Some ms \<Rightarrow> ms))"

definition othersInGroupAccurate :: "sentence \<Rightarrow> nat \<Rightarrow> bool" where
  "othersInGroupAccurate s j =
     list_all (\<lambda>i. i = j \<or> flagAccurate s i)
       (filter (\<lambda>i. i < length (transformations s)) (groupOf s j))"

text \<open>
  From \<open>s\<close> to \<open>s'\<close> the flag of every transformation other than \<open>j\<close> and outside the
  group of \<open>j\<close> is the same.
\<close>

definition otherFlagsKept :: "sentence \<Rightarrow> sentence \<Rightarrow> nat \<Rightarrow> bool" where
  "otherFlagsKept s s' j =
     list_all (\<lambda>i. i = j \<or> i \<in> set (groupOf s j) \<or>
                  isAvailable (transformations s' ! i) = isAvailable (transformations s ! i))
       [0 ..< length (transformations s)]"

subsection \<open>Accepting and then resetting\<close>

text \<open>The group table of the sentence has an entry for the group id of transformation \<open>j\<close>.\<close>

definition hasGroup :: "sentence \<Rightarrow> nat \<Rightarrow> bool" where
  "hasGroup s j =
     (case groupId (transformations s ! j) of
        None \<Rightarrow> False
      | Some gid \<Rightarrow> map_of (groups s) gid \<noteq> None)"

text \<open>
  What a splice of \<open>removed\<close> by \<open>inserted\<close> after the tokens \<open>before\<close> needs in order to
  be found again by id: both runs are non-empty, the ids within each run are distinct, and
  none of them occurs among the tokens before the run.
\<close>

definition spliceable :: "token list \<Rightarrow> token list \<Rightarrow> token list \<Rightarrow> bool" where
  "spliceable before removed inserted =
     (removed \<noteq> [] \<and> inserted \<noteq> [] \<and>
      distinct (map id_token removed) \<and> distinct (map id_token inserted) \<and>
      list_all (\<lambda>x. id_token x \<notin> set (map id_token before)) (removed @ inserted))"

subsection \<open>What the group search changes\<close>

text \<open>
  The group search writes \<^verbatim>\<open>groupId\<close> where it is absent and writes \<^verbatim>\<open>indexInSentence\<close>
  with the position of the transformation; \<open>grew j t t'\<close> says that \<open>t'\<close> comes from
  \<open>t\<close>, at position \<open>j\<close>, by such writes.
\<close>

definition grew :: "nat \<Rightarrow> transformation \<Rightarrow> transformation \<Rightarrow> bool" where
  "grew j t t' =
     (\<exists>g x. t' = t\<lparr>groupId := g, indexInSentence := x\<rparr> \<and>
            (groupId t \<noteq> None \<longrightarrow> g = groupId t) \<and>
            (x = indexInSentence t \<or> x = Some j))"

definition listGrew :: "transformation list \<Rightarrow> transformation list \<Rightarrow> bool" where
  "listGrew ts ts' = (length ts' = length ts \<and> (\<forall>j < length ts. grew j (ts ! j) (ts' ! j)))"

subsection \<open>One visit of the metadata pass\<close>

text \<open>
  The transformation at position \<open>j\<close> of sentence \<open>si\<close> carries the metadata that the pass
  writes when it visits it with the counter at \<open>c\<close>.
\<close>

definition initialised :: "nat \<Rightarrow> nat \<Rightarrow> nat \<Rightarrow> transformation \<Rightarrow> bool" where
  "initialised si c j t =
     (transformIndex t = Some c \<and> indexInSentence t = Some j \<and> sentenceIndex t = Some si \<and>
      status t \<noteq> None \<and> groupId t \<noteq> None)"

text \<open>What replaying reads of a transformation.\<close>

definition replayKey :: "transformation \<Rightarrow> bool \<times> bool \<times> token list \<times> token list" where
  "replayKey t = (hasReplacement t, isAccepted t, tokensAffected t, tokensAdded t)"

subsection \<open>The pass over the transformations of a sentence\<close>

text \<open>Replaying on the token stream alone.\<close>

fun replayFrom :: "transformation list \<Rightarrow> token list \<Rightarrow> token list option" where
  "replayFrom [] a = Some a"
| "replayFrom (t # ts) a =
     (if hasReplacement t \<and> isAccepted t
      then Option.bind (replaceTokens a (tokensAffected t) (tokensAdded t)) (replayFrom ts)
      else replayFrom ts a)"

subsection \<open>The pass over the document, twice\<close>

text \<open>The document with the group table of every sentence emptied.\<close>

definition clearGroups :: "document \<Rightarrow> document" where
  "clearGroups d = d\<lparr>rulesApplied := map_option (map (\<lambda>s. s\<lparr>groups := []\<rparr>)) (rulesApplied d)\<rparr>"

subsection \<open>A weight on token ids that every splice lowers\<close>

text \<open>
  The weight of a token id counts the id itself and, for every transformation that affects
  it, the weights of the tokens that transformation adds.  \<open>topological ts\<close> says that no
  transformation affects a token that it adds itself or that a later transformation adds;
  the weights of the added tokens are then together below the weight of each affected one.
\<close>

fun weight :: "transformation list \<Rightarrow> nat \<Rightarrow> nat" where
  "weight [] x = 1"
| "weight (t # ts) x =
     weight ts x +
     (if x \<in> set (map id_token (tokensAffected t))
      then sum_list (map (\<lambda>y. weight ts (id_token y)) (tokensAdded t))
      else 0)"

fun topological :: "transformation list \<Rightarrow> bool" where
  "topological [] = True"
| "topological (t # ts) =
     (list_all (\<lambda>u. list_all (\<lambda>y. id_token y \<notin> set (map id_token (tokensAffected t))) (tokensAdded u))
        (t # ts) \<and>
      topological ts)"

definition tokensWeight :: "transformation list \<Rightarrow> token list \<Rightarrow> nat" where
  "tokensWeight ts toks = sum_list (map (\<lambda>a. weight ts (id_token a)) toks)"

subsection \<open>A measure that every successful accept lowers\<close>

text \<open>
  A flag is stale on: the transformation has a replacement and its flag is set, but its
  affected tokens are not present.
\<close>

definition staleFlag :: "token list \<Rightarrow> transformation \<Rightarrow> bool" where
  "staleFlag toks t =
     (hasReplacement t \<and> isAvailable t = Some True \<and> \<not> tokensArePresent (tokensAffected t) toks)"

definition flagSet :: "transformation \<Rightarrow> bool" where
  "flagSet t = (isAvailable t = Some True)"

definition sentenceMeasure :: "sentence \<Rightarrow> nat \<times> nat \<times> nat" where
  "sentenceMeasure s =
     (tokensWeight (transformations s) (activeTokens s),
      length (filter (staleFlag (activeTokens s)) (transformations s)),
      length (filter flagSet (transformations s)))"

text \<open>\<open>t'\<close> is \<open>t\<close> with another flag and status.\<close>

definition reflagged :: "transformation \<Rightarrow> transformation \<Rightarrow> bool" where
  "reflagged t t' = (\<exists>a b. t' = t\<lparr>isAvailable := a, status := b\<rparr>)"

subsection \<open>The measure of a document\<close>

text \<open>The three components of \<open>sentenceMeasure\<close>, each summed over the sentences.\<close>

definition docMeasure :: "document \<Rightarrow> nat \<times> nat \<times> nat" where
  "docMeasure d =
     (case rulesApplied d of
        None \<Rightarrow> (0, 0, 0)
      | Some ss \<Rightarrow>
          (sum_list (map (\<lambda>s. fst (sentenceMeasure s)) ss),
           sum_list (map (\<lambda>s. fst (snd (sentenceMeasure s))) ss),
           sum_list (map (\<lambda>s. snd (snd (sentenceMeasure s))) ss)))"

text \<open>Every transformation knows the sentence it is in.\<close>

definition refsOK :: "document \<Rightarrow> bool" where
  "refsOK d =
     (case rulesApplied d of
        None \<Rightarrow> True
      | Some ss \<Rightarrow>
          list_all (\<lambda>k. list_all (\<lambda>t. sentenceIndex t = Some k) (transformations (ss ! k)))
            [0 ..< length ss])"

text \<open>The transformations of every sentence are in topological order.\<close>

definition topologicalDoc :: "document \<Rightarrow> bool" where
  "topologicalDoc d =
     (case rulesApplied d of
        None \<Rightarrow> True
      | Some ss \<Rightarrow> list_all (\<lambda>s. topological (transformations s)) ss)"

text \<open>
  An editor whose cache is the one \<^verbatim>\<open>updateAvailableCache\<close> computes from its document,
  on a document whose transformations know their sentences and are in topological order.
\<close>

definition editorOK :: "editor \<Rightarrow> bool" where
  "editorOK e =
     (allAvailableTransforms e
        = filter (availableInCache (data e) (ignoreNoReplacement e)) (flattenedTransforms e) \<and>
      refsOK (data e) \<and> topologicalDoc (data e))"

subsection \<open>Accepts that throw no exception\<close>

text \<open>
  What an accept needs of a sentence in order not to throw: every transformation affects
  at least one token (\<^verbatim>\<open>getTransformOffsetHelper\<close> and \<^verbatim>\<open>replaceTokens\<close> read
  \<^verbatim>\<open>tokensAffected[0]\<close>), and the group of every transformation with a replacement is in
  the group table (\<^verbatim>\<open>updateTokenGroup\<close> iterates over it).
\<close>

definition acceptSafe :: "sentence \<Rightarrow> bool" where
  "acceptSafe s =
     list_all (\<lambda>j. tokensAffected (transformations s ! j) \<noteq> [] \<and>
                   (hasReplacement (transformations s ! j) \<longrightarrow> hasGroup s j))
       [0 ..< length (transformations s)]"

text \<open>The same of every sentence of a document.\<close>

definition acceptSafeDoc :: "document \<Rightarrow> bool" where
  "acceptSafeDoc d =
     (case rulesApplied d of None \<Rightarrow> True | Some ss \<Rightarrow> list_all acceptSafe ss)"

subsection \<open>The group table after the metadata pass\<close>

text \<open>Every group id carried by a transformation of the sentence is in its group table.\<close>

definition grouped :: "sentence \<Rightarrow> bool" where
  "grouped s =
     list_all (\<lambda>g. case g of None \<Rightarrow> True | Some gid \<Rightarrow> map_of (groups s) gid \<noteq> None)
       (map groupId (transformations s))"

text \<open>
  A document as the service returns it: no metadata, no group ids, and every
  transformation affects at least one token.
\<close>

definition asReturned :: "document \<Rightarrow> bool" where
  "asReturned d =
     (\<not> hasMeta d \<and>
      (case rulesApplied d of
         None \<Rightarrow> True
       | Some ss \<Rightarrow>
           list_all (\<lambda>s. list_all (\<lambda>t. tokensAffected t \<noteq> [] \<and> groupId t = None) (transformations s)) ss))"

section \<open>Lemmas about the model\<close>

subsection \<open>Reading and writing sentences and transformations\<close>

lemma getSentence_updSentence:
  "getSentence (updSentence i f d) j =
     (if i = j then map_option f (getSentence d j) else getSentence d j)"
  by (auto simp: getSentence_def updSentence_def split: option.splits)

lemma rulesApplied_updSentence_None [simp]:
  "rulesApplied (updSentence i f d) = None \<longleftrightarrow> rulesApplied d = None"
  by (auto simp: updSentence_def split: option.splits)

lemma hasMeta_updSentence [simp]: "hasMeta (updSentence i f d) = hasMeta d"
  by (auto simp: updSentence_def split: option.splits)

lemma updSentence_updSentence:
  "updSentence i f (updSentence i g d) = updSentence i (f \<circ> g) d"
  by (auto simp: updSentence_def split: option.splits)

lemma length_updTransformIn [simp]:
  "length (transformations (updTransformIn j f s)) = length (transformations s)"
  by (simp add: updTransformIn_def)

lemma nth_updTransformIn:
  "i < length (transformations s) \<Longrightarrow>
   transformations (updTransformIn j f s) ! i =
     (if i = j then f (transformations s ! i) else transformations s ! i)"
  by (simp add: updTransformIn_def)

lemma updTransformIn_fields [simp]:
  "activeTokens (updTransformIn j f s) = activeTokens s"
  "originalSentence (updTransformIn j f s) = originalSentence s"
  "groups (updTransformIn j f s) = groups s"
  "sentenceIndex_s (updTransformIn j f s) = sentenceIndex_s s"
  by (simp_all add: updTransformIn_def)

lemma getSentence_updTransform:
  "getSentence (updTransform r f d) j =
     (if fst r = j then map_option (updTransformIn (snd r) f) (getSentence d j) else getSentence d j)"
  by (simp add: updTransform_def getSentence_updSentence)

lemma getTransform_Some:
  "getTransform d r = Some t \<longleftrightarrow>
     (\<exists>s. getSentence d (fst r) = Some s \<and> snd r < length (transformations s) \<and>
          t = transformations s ! snd r)"
  by (auto simp: getTransform_def split: option.splits)

subsection \<open>The availability pass\<close>

lemma setAvailable_fields [simp]:
  "activeTokens (setAvailable j s) = activeTokens s"
  "originalSentence (setAvailable j s) = originalSentence s"
  "groups (setAvailable j s) = groups s"
  "sentenceIndex_s (setAvailable j s) = sentenceIndex_s s"
  "length (transformations (setAvailable j s)) = length (transformations s)"
  by (simp_all add: setAvailable_def)

lemma nth_setAvailable:
  "i < length (transformations s) \<Longrightarrow>
   transformations (setAvailable j s) ! i =
     (if i = j then (transformations s ! i)\<lparr>isAvailable := Some (canMakeTransform s (transformations s ! i))\<rparr>
      else transformations s ! i)"
  by (simp add: setAvailable_def nth_updTransformIn)

lemma canMakeTransform_cong:
  "activeTokens s' = activeTokens s \<Longrightarrow> tokensAffected t' = tokensAffected t \<Longrightarrow>
   canMakeTransform s' t' = canMakeTransform s t"
  by (simp add: canMakeTransform_def)

lemma canMakeTransform_update [simp]:
  "canMakeTransform s (t\<lparr>isAvailable := a\<rparr>) = canMakeTransform s t"
  "canMakeTransform s (t\<lparr>status := b\<rparr>) = canMakeTransform s t"
  "canMakeTransform (setAvailable j s) t = canMakeTransform s t"
  "canMakeTransform (updTransformIn j f s) t = canMakeTransform s t"
  by (simp_all add: canMakeTransform_def)

lemma setIsAvailable_fields [simp]:
  "activeTokens (setIsAvailable ms s) = activeTokens s"
  "originalSentence (setIsAvailable ms s) = originalSentence s"
  "groups (setIsAvailable ms s) = groups s"
  "sentenceIndex_s (setIsAvailable ms s) = sentenceIndex_s s"
  "length (transformations (setIsAvailable ms s)) = length (transformations s)"
  unfolding setIsAvailable_def by (induction ms arbitrary: s; simp)+

lemma nth_setIsAvailable:
  "i < length (transformations s) \<Longrightarrow>
   transformations (setIsAvailable ms s) ! i =
     (if i \<in> set ms
      then (transformations s ! i)\<lparr>isAvailable := Some (canMakeTransform s (transformations s ! i))\<rparr>
      else transformations s ! i)"
  unfolding setIsAvailable_def
proof (induction ms arbitrary: s)
  case Nil
  then show ?case by simp
next
  case (Cons m ms)
  have len: "i < length (transformations (setAvailable m s))"
    using Cons.prems by simp
  show ?case
    using Cons.IH [OF len] Cons.prems
    by (auto simp: nth_setAvailable)
qed

lemma map_update_same: "(\<And>x. f (g x) = f x) \<Longrightarrow> map f (xs[i := g (xs ! i)]) = map f xs"
  by (simp add: map_update) (metis list_update_id map_update)

lemma scanStep_map:
  assumes "\<And>t b. f (t\<lparr>indexInSentence := b\<rparr>) = f t"
  shows "map f (fst (scanStep x i st)) = map f (fst st)"
proof -
  have "map f ((fst st)[i := (fst st ! i)\<lparr>indexInSentence := Some i\<rparr>]) = map f (fst st)"
    using map_update_same [of f "\<lambda>t. t\<lparr>indexInSentence := Some i\<rparr>" "fst st" i] assms by simp
  then show ?thesis
    by (simp add: scanStep_def Let_def)
qed

lemma scanLater_map:
  assumes "\<And>t b. f (t\<lparr>indexInSentence := b\<rparr>) = f t"
  shows "map f (fst (scanLater x n st)) = map f (fst st)"
proof -
  have "map f (fst (fold (scanStep x) is st)) = map f (fst st)" for "is"
    by (induction "is" arbitrary: st) (simp_all add: scanStep_map [OF assms])
  then show ?thesis
    by (simp add: scanLater_def split: option.split)
qed

lemma groupLoop_fields [simp]:
  "activeTokens (groupLoop g n s q) = activeTokens s"
  "originalSentence (groupLoop g n s q) = originalSentence s"
  "sentenceIndex_s (groupLoop g n s q) = sentenceIndex_s s"
  by (induction g n s q rule: groupLoop.induct; simp add: groupLoop.simps(2) Let_def)+

lemma groupLoop_map:
  assumes "ignoresGrouping f"
  shows "map f (transformations (groupLoop g n s q)) = map f (transformations s)"
proof (induction g n s q rule: groupLoop.induct)
  case (1 gid n s)
  then show ?case by simp
next
  case (2 gid n s j q)
  have idx: "\<And>t b. f (t\<lparr>indexInSentence := b\<rparr>) = f t" and gr: "\<And>t a. f (t\<lparr>groupId := a\<rparr>) = f t"
    using assms by (simp_all add: ignoresGrouping_def)
  show ?case
  proof (cases "j < length (transformations s) \<and> groupId (transformations s ! j) = None")
    case True
    have "map f ((transformations s)[j := (transformations s ! j)\<lparr>groupId := Some gid\<rparr>])
        = map f (transformations s)"
      using map_update_same [of f "\<lambda>t. t\<lparr>groupId := Some gid\<rparr>" "transformations s" j] gr by simp
    then show ?thesis
      using True 2(1) [OF True refl refl refl refl]
      by (simp add: groupLoop.simps(2) [of gid n s j q] Let_def scanLater_map [OF idx])
  next
    case False
    then show ?thesis using 2(2) by (auto simp: groupLoop.simps(2) [of gid n s j q])
  qed
qed

lemma length_groupLoop [simp]:
  "length (transformations (groupLoop g n s q)) = length (transformations s)"
  using groupLoop_map [of "\<lambda>_. ()" g n s q] 
  by (metis ignoresGrouping_def length_map)

lemma updateActiveTokens_fields:
  "updateActiveTokens s t = Some s' \<Longrightarrow>
     transformations s' = transformations s \<and> originalSentence s' = originalSentence s \<and>
     groups s' = groups s \<and> sentenceIndex_s s' = sentenceIndex_s s"
  by (auto simp: updateActiveTokens_def split: if_splits Option.bind_splits)

lemma visitTransform_map:
  assumes f: "ignoresGrouping f" and v: "visitTransform si n i st = Some st'"
  shows "map f (transformations (fst st')) =
         map f (transformations (updTransformIn i (initTransform (fst (snd st)) i si) (fst st)))"
proof -
  obtain s tc gc where st: "st = (s, tc, gc)" by (cases st)
  define s1 where "s1 = updTransformIn i (initTransform tc i si) s"
  from v obtain s2 where s2: "updateActiveTokens s1 (transformations s1 ! i) = Some s2"
    and st': "st' = (if groupId (transformations s2 ! i) = None
        then (groupLoop gc n (s2\<lparr>groups := AList.update gc [] (groups s2)\<rparr>) [i], tc + 1, gc + 1)
        else (s2, tc + 1, gc))"
    by (auto simp: visitTransform_def st s1_def Let_def split: if_splits Option.bind_splits)
  have "transformations s2 = transformations s1"
    using updateActiveTokens_fields [OF s2] by simp
  then show ?thesis
    unfolding st' st by (simp add: s1_def groupLoop_map [OF f])
qed

lemma length_visitTransform:
  assumes "visitTransform si n i st = Some st'"
  shows "length (transformations (fst st')) = length (transformations (fst st))"
proof -
  have "ignoresGrouping (\<lambda>_. ())" by (simp add: ignoresGrouping_def)
  from visitTransform_map [OF this assms] show ?thesis
    by (metis length_map length_updTransformIn)
qed

lemma length_forEachTransform:
  "forEachTransform si n is st = Some st' \<Longrightarrow>
   length (transformations (fst st')) = length (transformations (fst st))"
  by (induction "is" arbitrary: st) (auto split: Option.bind_splits dest!: length_visitTransform)

lemma initSentence_accurate:
  assumes "initSentence si tc s0 = Some r"
  shows "list_all (flagAccurate (fst r)) [0 ..< length (transformations (fst r))]"
proof -
  from assms obtain st where st: "forEachTransform si (length (transformations s0)) [0 ..< length (transformations s0)]
        (s0\<lparr>activeTokens := originalSentence s0, groups := [], sentenceIndex_s := Some si\<rparr>, tc, 0) = Some st"
    and r: "r = (setIsAvailable [0 ..< length (transformations s0)] (fst st), fst (snd st))"
    by (auto simp: initSentence_def Let_def split: Option.bind_splits)
  have len: "length (transformations (fst st)) = length (transformations s0)"
    using length_forEachTransform [OF st] by simp
  show ?thesis
    unfolding r using len
    by (simp add: list_all_iff flagAccurate_def nth_setIsAvailable canMakeTransform_def)
qed

lemma getSentence_SomeD:
  "getSentence d k = Some s \<Longrightarrow> \<exists>ss. rulesApplied d = Some ss \<and> k < length ss \<and> s = ss ! k"
  by (auto simp: getSentence_def split: option.splits if_splits)

lemma updSentence_put:
  "getSentence d k = Some s \<Longrightarrow> updSentence k f d = putSentence k (f s) d"
  by (auto simp: putSentence_def updSentence_def dest!: getSentence_SomeD)

lemma getSentence_put:
  "getSentence (putSentence k s' d) i =
     (if i = k then map_option (\<lambda>_. s') (getSentence d i) else getSentence d i)"
  by (auto simp: putSentence_def getSentence_updSentence)

lemma put_put [simp]: "putSentence k s'' (putSentence k s' d) = putSentence k s'' d"
  by (auto simp: putSentence_def updSentence_def split: option.splits)

lemma put_same: "getSentence d k = Some s \<Longrightarrow> putSentence k s d = d"
  by (auto simp: putSentence_def updSentence_def dest!: getSentence_SomeD)

lemma updTransform_put:
  "getSentence d k = Some s \<Longrightarrow> updTransform (k, j) f d = putSentence k (updTransformIn j f s) d"
  by (simp add: updTransform_def updSentence_put)

lemma updateTokenGroup_sentence:
  assumes "getSentence d k = Some s"
  shows "updateTokenGroup k (transformations s ! j) d
         = map_option (\<lambda>s'. putSentence k s' d) (refreshGroupIn j s)"
  using assms
  by (auto simp: updateTokenGroup_def refreshGroupIn_def updSentence_put
      split: Option.bind_splits)

lemma makeTransform_sentence:
  assumes "getSentence d k = Some s" and "j < length (transformations s)"
  shows "makeTransform k (k, j) d = map_option (\<lambda>s'. putSentence k s' d) (makeTransformIn j s)"
proof -
  have t: "getTransform d (k, j) = Some (transformations s ! j)"
    using assms by (simp add: getTransform_def)
  show ?thesis
  proof (cases "hasReplacement (transformations s ! j)")
    case False
    then show ?thesis
      using assms t by (simp add: makeTransform_def makeTransformIn_def updTransform_put)
  next
    case True
    show ?thesis
    proof (cases "replaceTokens (activeTokens s) (tokensAffected (transformations s ! j))
                      (tokensAdded (transformations s ! j))")
      case None
      then show ?thesis
        using assms t True by (simp add: makeTransform_def makeTransformIn_def)
    next
      case (Some toks)
      define d1 where "d1 = putSentence k (s\<lparr>activeTokens := toks\<rparr>) d"
      have g1: "getSentence d1 k = Some (s\<lparr>activeTokens := toks\<rparr>)"
        using assms by (simp add: d1_def getSentence_put)
      have u: "updSentence k (\<lambda>s. s\<lparr>activeTokens := toks\<rparr>) d = d1"
        using assms by (simp add: d1_def updSentence_put)
      have tg: "updateTokenGroup k (transformations s ! j) d1
          = map_option (\<lambda>s'. putSentence k s' d1) (refreshGroupIn j (s\<lparr>activeTokens := toks\<rparr>))"
        using updateTokenGroup_sentence [OF g1, of j] by simp
      show ?thesis
      proof (cases "refreshGroupIn j (s\<lparr>activeTokens := toks\<rparr>)")
        case None
        then show ?thesis
          using assms t True Some tg u by (simp add: makeTransform_def makeTransformIn_def)
      next
        case (Some s2)
        have "getSentence (putSentence k s2 d1) k = Some s2"
          using g1 by (simp add: getSentence_put)
        then have "updTransform (k, j) f (putSentence k s2 d1) = putSentence k (updTransformIn j f s2) d" for f
          by (simp add: updTransform_put d1_def)
        then show ?thesis
          using assms t True \<open>replaceTokens _ _ _ = Some toks\<close> Some tg u
          by (simp add: makeTransform_def makeTransformIn_def)
      qed
    qed
  qed
qed

lemma undoTransform_sentence:
  assumes "getSentence d k = Some s" and "j < length (transformations s)"
  shows "undoTransform k (k, j) d = map_option (\<lambda>s'. putSentence k s' d) (undoTransformIn j s)"
proof -
  have t: "getTransform d (k, j) = Some (transformations s ! j)"
    using assms by (simp add: getTransform_def)
  show ?thesis
  proof (cases "hasReplacement (transformations s ! j)")
    case False
    then show ?thesis
      using assms t by (simp add: undoTransform_def undoTransformIn_def updTransform_put)
  next
    case True
    show ?thesis
    proof (cases "replaceTokens (activeTokens s) (tokensAdded (transformations s ! j))
                      (tokensAffected (transformations s ! j))")
      case None
      then show ?thesis
        using assms t True by (simp add: undoTransform_def undoTransformIn_def)
    next
      case (Some toks)
      define d1 where "d1 = putSentence k (s\<lparr>activeTokens := toks\<rparr>) d"
      have g1: "getSentence d1 k = Some (s\<lparr>activeTokens := toks\<rparr>)"
        using assms by (simp add: d1_def getSentence_put)
      have u: "updSentence k (\<lambda>s. s\<lparr>activeTokens := toks\<rparr>) d = d1"
        using assms by (simp add: d1_def updSentence_put)
      have tg: "updateTokenGroup k (transformations s ! j) d1
          = map_option (\<lambda>s'. putSentence k s' d1) (refreshGroupIn j (s\<lparr>activeTokens := toks\<rparr>))"
        using updateTokenGroup_sentence [OF g1, of j] by simp
      show ?thesis
      proof (cases "refreshGroupIn j (s\<lparr>activeTokens := toks\<rparr>)")
        case None
        then show ?thesis
          using assms t True Some tg u by (simp add: undoTransform_def undoTransformIn_def)
      next
        case (Some s2)
        have "getSentence (putSentence k s2 d1) k = Some s2"
          using g1 by (simp add: getSentence_put)
        then have "updTransform (k, j) f (putSentence k s2 d1) = putSentence k (updTransformIn j f s2) d" for f
          by (simp add: updTransform_put d1_def)
        then show ?thesis
          using assms t True \<open>replaceTokens _ _ _ = Some toks\<close> Some tg u
          by (simp add: undoTransform_def undoTransformIn_def)
      qed
    qed
  qed
qed

lemma getTransformOffset_sentence:
  "getSentence d k = Some s \<Longrightarrow> sentenceIndex t = Some k \<Longrightarrow> getTransformOffset d t = offsetIn s t"
  by (simp add: getTransformOffset_def offsetIn_def)

lemma acceptCorrection_sentence:
  assumes "getSentence d k = Some s" and "j < length (transformations s)"
    and "sentenceIndex (transformations s ! j) = Some k"
  shows "acceptCorrection d (k, j) = map_option (\<lambda>res. (fst res, putSentence k (snd res) d)) (acceptIn j s)"
proof -
  have t: "getTransform d (k, j) = Some (transformations s ! j)"
    using assms by (simp add: getTransform_def)
  have up: "updTransform (k, j) f (putSentence k s2 d) = putSentence k (updTransformIn j f s2) d" for f s2
  proof -
    have "getSentence (putSentence k s2 d) k = Some s2"
      using assms by (simp add: getSentence_put)
    from updTransform_put [OF this] show ?thesis by simp
  qed
  show ?thesis
    using assms t
    by (auto simp: acceptCorrection_def acceptIn_def getTransformOffset_sentence
        makeTransform_sentence put_same up split: Option.bind_splits)
qed

lemma rejectCorrection_sentence:
  assumes "getSentence d k = Some s" and "j < length (transformations s)"
    and "sentenceIndex (transformations s ! j) = Some k"
  shows "rejectCorrection d (k, j) = map_option (\<lambda>res. (fst res, putSentence k (snd res) d)) (rejectIn j s)"
proof -
  have t: "getTransform d (k, j) = Some (transformations s ! j)"
    using assms by (simp add: getTransform_def)
  show ?thesis
    using assms t
    by (auto simp: rejectCorrection_def rejectIn_def getTransformOffset_sentence
        put_same updTransform_put split: Option.bind_splits)
qed

lemma resetCorrection_sentence:
  assumes "getSentence d k = Some s" and "j < length (transformations s)"
    and "sentenceIndex (transformations s ! j) = Some k"
  shows "resetCorrection persist d (k, j)
         = map_option (\<lambda>res. (fst res, putSentence k (snd res) d)) (resetIn persist j s)"
proof -
  have t: "getTransform d (k, j) = Some (transformations s ! j)"
    using assms by (simp add: getTransform_def)
  have so: "sentenceOf d (transformations s ! j) = Some (k, s)"
    using assms by (simp add: sentenceOf_def)
  have g: "getSentence (putSentence k s2 d) k = Some s2" for s2
    using assms by (simp add: getSentence_put)
  have up: "updTransform (k, j) f (putSentence k s2 d) = putSentence k (updTransformIn j f s2) d" for f s2
    using updTransform_put [OF g] by simp
  show ?thesis
  proof (cases "canUndoTransform s (transformations s ! j)")
    case False
    then show ?thesis
      using assms t so by (simp add: resetCorrection_def resetIn_def put_same)
  next
    case True
    show ?thesis
    proof (cases "undoTransformIn j s")
      case None
      then show ?thesis
        using assms t so True by (simp add: resetCorrection_def resetIn_def undoTransform_sentence)
    next
      case (Some s2)
      define s3 where "s3 = updTransformIn j (\<lambda>t. t\<lparr>status := Some clean\<rparr>) s2"
      have len: "length (transformations s2) = length (transformations s)"
        using Some by (auto simp: undoTransformIn_def refreshGroupIn_def split: if_splits Option.bind_splits)
      have si: "sentenceIndex (transformations s2 ! j) = Some k"
        using Some assms
        by (auto simp: undoTransformIn_def refreshGroupIn_def nth_updTransformIn nth_setIsAvailable
            split: if_splits Option.bind_splits)
      have t3: "getTransform (putSentence k s3 d) (k, j) = Some (transformations s3 ! j)"
        using g [of s3] len assms by (simp add: getTransform_def s3_def)
      have si3: "sentenceIndex (transformations s3 ! j) = Some k"
        using si len assms by (simp add: s3_def nth_updTransformIn)
      show ?thesis
        using assms t so True Some t3 g [of s3] si3
        by (simp add: resetCorrection_def resetIn_def undoTransform_sentence up
            getTransformOffset_sentence s3_def [symmetric] Let_def split: Option.bind_splits)
    qed
  qed
qed

lemma forEachSentence_all:
  assumes "\<And>si tc s r. initSentence si tc s = Some r \<Longrightarrow> P (fst r)"
  shows "forEachSentence si tc ss = Some ss' \<Longrightarrow> list_all P ss'"
  by (induction ss arbitrary: si tc ss') (auto split: Option.bind_splits dest: assms)

lemma setMetaData_accurate: "setMetaData d0 = Some d \<Longrightarrow> allFlagsAccurate d"
proof (cases "rulesApplied d0")
  case None
  assume "setMetaData d0 = Some d"
  with None show ?thesis by (simp add: setMetaData_def allFlagsAccurate_def)
next
  case (Some ss)
  assume "setMetaData d0 = Some d"
  with Some obtain ss' where ss': "forEachSentence 0 0 ss = Some ss'"
    and d: "d = d0\<lparr>rulesApplied := Some ss', hasMeta := True\<rparr>"
    by (auto simp: setMetaData_def split: Option.bind_splits)
  have "list_all (\<lambda>s. list_all (flagAccurate s) [0 ..< length (transformations s)]) ss'"
    by (rule forEachSentence_all [OF _ ss']) (rule initSentence_accurate)
  then show ?thesis by (simp add: d allFlagsAccurate_def)
qed

lemma flagAccurate_updTransformIn:
  "i \<noteq> j \<Longrightarrow> flagAccurate (updTransformIn j f s) i = flagAccurate s i"
  by (simp add: flagAccurate_def updTransformIn_def)

lemma groupOf_updTransformIn:
  assumes "\<And>t. groupId (f t) = groupId t"
  shows "groupOf (updTransformIn j f s) i = groupOf s i"
proof (cases "i = j \<and> j < length (transformations s)")
  case True
  then show ?thesis by (simp add: groupOf_def nth_updTransformIn assms split: option.splits)
next
  case False
  then show ?thesis by (auto simp: groupOf_def updTransformIn_def split: option.splits)
qed

lemma othersInGroupAccurate_updTransformIn:
  assumes "\<And>t. groupId (f t) = groupId t"
  shows "othersInGroupAccurate (updTransformIn j f s) j = othersInGroupAccurate s j"
  unfolding othersInGroupAccurate_def groupOf_updTransformIn [OF assms] length_updTransformIn
proof (rule list_all_cong)
  fix x
  show "(x = j \<or> flagAccurate (updTransformIn j f s) x) = (x = j \<or> flagAccurate s x)"
    by (cases "x = j") (simp_all add: flagAccurate_updTransformIn)
qed simp

lemma refreshGroupIn_result:
  assumes "refreshGroupIn j s = Some s'" and j: "j < length (transformations s)"
  shows "activeTokens s' = activeTokens s" and "groups s' = groups s"
    and "length (transformations s') = length (transformations s)"
    and "groupOf s' j = groupOf s j"
    and "list_all (flagAccurate s') (filter (\<lambda>i. i < length (transformations s')) (groupOf s' j))"
proof -
  from assms obtain gid ms where g: "groupId (transformations s ! j) = Some gid"
    and ms: "map_of (groups s) gid = Some ms" and s': "s' = setIsAvailable ms s"
    by (auto simp: refreshGroupIn_def split: Option.bind_splits)
  show "activeTokens s' = activeTokens s" "groups s' = groups s"
    "length (transformations s') = length (transformations s)"
    by (simp_all add: s')
  have gj: "groupId (transformations s' ! j) = Some gid"
    using j by (simp add: s' nth_setIsAvailable g)
  show go: "groupOf s' j = groupOf s j"
    using gj g ms by (simp add: groupOf_def s' split: option.splits)
  have gm: "groupOf s' j = ms"
    using gj ms by (simp add: groupOf_def s')
  show "list_all (flagAccurate s') (filter (\<lambda>i. i < length (transformations s')) (groupOf s' j))"
    unfolding gm
    by (simp add: list_all_iff s' flagAccurate_def nth_setIsAvailable canMakeTransform_def)
qed

lemma refreshGroupIn_kept:
  assumes "refreshGroupIn j s = Some s'" and "i < length (transformations s)"
    and "i \<notin> set (groupOf s j)"
  shows "transformations s' ! i = transformations s ! i"
  using assms
  by (auto simp: refreshGroupIn_def groupOf_def nth_setIsAvailable split: Option.bind_splits)

lemma groupOf_activeTokens [simp]: "groupOf (s\<lparr>activeTokens := toks\<rparr>) j = groupOf s j"
  by (simp add: groupOf_def cong: option.case_cong)

lemma spliceIn_result:
  assumes r: "(if hasReplacement (transformations s ! j)
               then do { toks \<leftarrow> rt; refreshGroupIn j (s\<lparr>activeTokens := toks\<rparr>) }
               else Some s) = Some s2"
    and j: "j < length (transformations s)"
    and f: "\<And>t. groupId (f t) = groupId t"
  shows "length (transformations (updTransformIn j f s2)) = length (transformations s)"
    and "transformations (updTransformIn j f s2) ! j = f (transformations s2 ! j)"
    and "hasReplacement (transformations s ! j) \<Longrightarrow> othersInGroupAccurate (updTransformIn j f s2) j"
    and "otherFlagsKept s (updTransformIn j f s2) j"
    and "groupOf (updTransformIn j f s2) j = groupOf s j"
proof -
  show len: "length (transformations (updTransformIn j f s2)) = length (transformations s)"
    using r j by (auto split: if_splits Option.bind_splits dest: refreshGroupIn_result(3))
  then have len2: "length (transformations s2) = length (transformations s)" by simp
  show "transformations (updTransformIn j f s2) ! j = f (transformations s2 ! j)"
    using j len2 by (simp add: nth_updTransformIn)
  show "othersInGroupAccurate (updTransformIn j f s2) j" if "hasReplacement (transformations s ! j)"
  proof -
    from r that obtain toks where rf: "refreshGroupIn j (s\<lparr>activeTokens := toks\<rparr>) = Some s2"
      by (auto split: Option.bind_splits)
    have "list_all (flagAccurate s2) (filter (\<lambda>i. i < length (transformations s2)) (groupOf s2 j))"
      using refreshGroupIn_result(5) [OF rf] j by simp
    then have "othersInGroupAccurate s2 j"
      by (simp add: othersInGroupAccurate_def list_all_iff)
    then show ?thesis
      by (simp add: othersInGroupAccurate_updTransformIn [OF f])
  qed
  have keep: "transformations s2 ! i = transformations s ! i"
    if "i < length (transformations s)" "i \<notin> set (groupOf s j)" for i
  proof (cases "hasReplacement (transformations s ! j)")
    case True
    with r obtain toks where rf: "refreshGroupIn j (s\<lparr>activeTokens := toks\<rparr>) = Some s2"
      by (auto split: Option.bind_splits)
    from refreshGroupIn_kept [OF rf] that show ?thesis by simp
  next
    case False
    with r show ?thesis by simp
  qed
  have "i = j \<or> i \<in> set (groupOf s j) \<or>
        isAvailable (transformations (updTransformIn j f s2) ! i) = isAvailable (transformations s ! i)"
    if "i < length (transformations s)" for i
  proof (cases "i = j \<or> i \<in> set (groupOf s j)")
    case True
    then show ?thesis by auto
  next
    case False
    with that keep [of i] len2 show ?thesis by (simp add: nth_updTransformIn)
  qed
  then show "otherFlagsKept s (updTransformIn j f s2) j"
    by (simp add: otherFlagsKept_def list_all_iff)
  have g2: "groupOf s2 j = groupOf s j"
  proof (cases "hasReplacement (transformations s ! j)")
    case True
    with r obtain toks where rf: "refreshGroupIn j (s\<lparr>activeTokens := toks\<rparr>) = Some s2"
      by (auto split: Option.bind_splits)
    from refreshGroupIn_result(4) [OF rf] j show ?thesis by simp
  next
    case False
    with r show ?thesis by simp
  qed
  show "groupOf (updTransformIn j f s2) j = groupOf s j"
    using groupOf_updTransformIn [OF f, of j s2 j] g2 by simp
qed

lemma updTransformIn_comp:
  "updTransformIn j g (updTransformIn j f s) = updTransformIn j (g \<circ> f) s"
  by (simp add: updTransformIn_def)

lemma acceptIn_True:
  assumes "acceptIn j s = Some (True, s')"
  shows "\<exists>s2. (if hasReplacement (transformations s ! j)
               then do {
                 toks \<leftarrow> replaceTokens (activeTokens s) (tokensAffected (transformations s ! j))
                           (tokensAdded (transformations s ! j));
                 refreshGroupIn j (s\<lparr>activeTokens := toks\<rparr>) }
               else Some s) = Some s2 \<and>
              s' = updTransformIn j ((\<lambda>t. t\<lparr>status := Some accept\<rparr>) \<circ> (\<lambda>t. t\<lparr>isAvailable := Some False\<rparr>)) s2"
  using assms
  by (auto simp: acceptIn_def makeTransformIn_def updTransformIn_comp
      split: if_splits Option.bind_splits)

lemma resetIn_True:
  assumes "resetIn persist j s = Some (True, s')"
  shows "\<exists>s2. (if hasReplacement (transformations s ! j)
               then do {
                 toks \<leftarrow> replaceTokens (activeTokens s) (tokensAdded (transformations s ! j))
                           (tokensAffected (transformations s ! j));
                 refreshGroupIn j (s\<lparr>activeTokens := toks\<rparr>) }
               else Some s) = Some s2 \<and>
              s' = updTransformIn j ((\<lambda>t. t\<lparr>status := Some clean\<rparr>) \<circ> (\<lambda>t. t\<lparr>isAvailable := Some True\<rparr>)) s2"
  using assms
  by (auto simp: resetIn_def undoTransformIn_def updTransformIn_comp Let_def
      split: if_splits Option.bind_splits)

subsection \<open>Finding tokens by id\<close>

lemma findIndex_None_iff: "findIndex P xs = None \<longleftrightarrow> (\<forall>x \<in> set xs. \<not> P x)"
  by (induction xs) auto

lemma findIndex_append:
  "findIndex P (xs @ ys) =
     (case findIndex P xs of
        Some i \<Rightarrow> Some i
      | None \<Rightarrow> map_option (\<lambda>i. length xs + i) (findIndex P ys))"
proof (induction xs)
  case Nil
  show ?case by (cases "findIndex P ys") simp_all
next
  case (Cons x xs)
  then show ?case
    by (cases "findIndex P xs"; cases "findIndex P ys") simp_all
qed

lemma findIndex_skip:
  "\<forall>x \<in> set xs. \<not> P x \<Longrightarrow> findIndex P (xs @ ys) = map_option (\<lambda>i. length xs + i) (findIndex P ys)"
  using findIndex_None_iff [of P xs] by (simp add: findIndex_append)

text \<open>In a run with distinct ids, the token with the id of the \<open>k\<close>-th token is found at \<open>k\<close>.\<close>

lemma findIndex_distinct_nth:
  assumes "distinct (map id_token xs)" and "k < length xs"
  shows "findIndex (\<lambda>a. id_token (xs ! k) = id_token a) (xs @ ys) = Some k"
  using assms
proof (induction xs arbitrary: k)
  case Nil
  then show ?case by simp
next
  case (Cons x xs)
  show ?case
  proof (cases k)
    case 0
    with Cons.prems show ?thesis by simp
  next
    case (Suc k')
    with Cons.prems have "id_token (xs ! k') \<noteq> id_token x"
      by (metis distinct.simps(2) length_Cons list.simps(9) not_less_eq nth_map nth_mem length_map)
    with Cons.prems Suc Cons.IH [of k'] show ?thesis by simp
  qed
qed

lemma everyPresent_from:
  "everyPresent (int q) xs ys \<longleftrightarrow>
     (\<forall>k < length xs. findIndex (\<lambda>a. id_token (xs ! k) = id_token a) ys = Some (q + 1 + k))"
proof (induction xs arbitrary: q)
  case Nil
  then show ?case by simp
next
  case (Cons x xs)
  show ?case
  proof (cases "findIndex (\<lambda>a. id_token x = id_token a) ys")
    case None
    then show ?thesis by auto
  next
    case (Some i)
    show ?thesis
    proof (cases "i = q + 1")
      case False
      with Some show ?thesis by auto
    next
      case True
      have "(\<forall>k<length (x # xs). findIndex (\<lambda>a. id_token ((x # xs) ! k) = id_token a) ys = Some (q + 1 + k))
          \<longleftrightarrow> (\<forall>k<length xs. findIndex (\<lambda>a. id_token (xs ! k) = id_token a) ys = Some (i + 1 + k))"
        using Some True by (auto simp: less_Suc_eq_0_disj)
      with Some True Cons.IH [of i] show ?thesis by simp
    qed
  qed
qed

lemma tokensArePresent_Cons:
  "tokensArePresent (x # xs) ys \<longleftrightarrow>
     (\<exists>p. \<forall>k < length (x # xs). findIndex (\<lambda>a. id_token ((x # xs) ! k) = id_token a) ys = Some (p + k))"
proof (cases "findIndex (\<lambda>a. id_token x = id_token a) ys")
  case None
  then show ?thesis by (auto simp: tokensArePresent_def)
next
  case (Some i)
  have "(\<forall>k<length xs. findIndex (\<lambda>a. id_token (xs ! k) = id_token a) ys = Some (i + 1 + k)) \<longleftrightarrow>
        (\<exists>p. \<forall>k < length (x # xs). findIndex (\<lambda>a. id_token ((x # xs) ! k) = id_token a) ys = Some (p + k))"
    (is "?L \<longleftrightarrow> ?R")
  proof
    assume ?L
    then have "\<forall>k < length (x # xs). findIndex (\<lambda>a. id_token ((x # xs) ! k) = id_token a) ys = Some (i + k)"
      using Some by (auto simp: less_Suc_eq_0_disj)
    then show ?R by blast
  next
    assume ?R
    then obtain p where p: "\<forall>k < length (x # xs). findIndex (\<lambda>a. id_token ((x # xs) ! k) = id_token a) ys = Some (p + k)"
      by blast
    then have "p = i" using Some by auto
    with p show ?L by (auto simp: less_Suc_eq_0_disj)
  qed
  then show ?thesis
    using Some by (simp add: tokensArePresent_def everyPresent_from)
qed

lemma findIndex_eq_commute:
  "findIndex (\<lambda>tok. id_token tok = c) ys = findIndex (\<lambda>tok. c = id_token tok) ys"
  by (induction ys) auto

lemma findIndex_run:
  assumes "distinct (map id_token xs)" and "k < length xs"
    and "\<forall>x \<in> set xs. id_token x \<notin> id_token ` set before"
  shows "findIndex (\<lambda>a. id_token (xs ! k) = id_token a) (before @ xs @ after) = Some (length before + k)"
proof -
  have "\<forall>b \<in> set before. \<not> id_token (xs ! k) = id_token b"
    using assms(2,3) by (metis image_eqI nth_mem)
  then show ?thesis
    using findIndex_skip [of before "\<lambda>a. id_token (xs ! k) = id_token a" "xs @ after"]
      findIndex_distinct_nth [OF assms(1,2), of after]
    by simp
qed

lemma present_run:
  assumes "distinct (map id_token xs)"
    and "\<forall>x \<in> set xs. id_token x \<notin> id_token ` set before"
  shows "tokensArePresent xs (before @ xs @ after)"
proof (cases xs)
  case Nil
  then show ?thesis by (simp add: tokensArePresent_def)
next
  case (Cons x xs')
  have "\<forall>k < length xs. findIndex (\<lambda>a. id_token (xs ! k) = id_token a) (before @ xs @ after)
            = Some (length before + k)"
    using findIndex_run [OF assms(1) _ assms(2)] by blast
  then show ?thesis
    unfolding Cons tokensArePresent_Cons by blast
qed

lemma replaceTokens_run:
  assumes "xs \<noteq> []" and "distinct (map id_token xs)"
    and "\<forall>x \<in> set xs. id_token x \<notin> id_token ` set before"
  shows "replaceTokens (before @ xs @ after) xs added = Some (before @ added @ after)"
proof -
  have p: "tokensArePresent xs (before @ xs @ after)"
    by (rule present_run [OF assms(2,3)])
  have h: "hd xs = xs ! 0" and l: "last xs = xs ! (length xs - 1)"
    using assms(1) by (simp_all add: hd_conv_nth last_conv_nth)
  have s: "findIndex (\<lambda>tok. id_token tok = id_token (hd xs)) (before @ xs @ after) = Some (length before)"
    using findIndex_run [OF assms(2) _ assms(3), of 0 after] assms(1)
    by (simp add: findIndex_eq_commute h)
  have e: "findIndex (\<lambda>tok. id_token tok = id_token (last xs)) (before @ xs @ after)
             = Some (length before + (length xs - 1))"
    using findIndex_run [OF assms(2) _ assms(3), of "length xs - 1" after] assms(1)
    by (simp add: findIndex_eq_commute l)
  have "drop (Suc (length before + (length xs - 1))) (before @ xs @ after) = after"
    using assms(1) by (cases xs) simp_all
  then show ?thesis
    using p assms(1) s e by (simp add: replaceTokens_def Let_def)
qed

lemma hasGroup_iff:
  "hasGroup s j \<longleftrightarrow>
     (\<exists>gid ms. groupId (transformations s ! j) = Some gid \<and> map_of (groups s) gid = Some ms)"
  by (auto simp: hasGroup_def split: option.splits)

lemma refreshGroupIn_Some:
  assumes "hasGroup s j" and "j < length (transformations s)"
  shows "\<exists>s' x. refreshGroupIn j s = Some s' \<and> activeTokens s' = activeTokens s \<and>
           groups s' = groups s \<and> length (transformations s') = length (transformations s) \<and>
           transformations s' ! j = (transformations s ! j)\<lparr>isAvailable := x\<rparr>"
proof -
  from assms(1) obtain gid ms where g: "groupId (transformations s ! j) = Some gid"
    and ms: "map_of (groups s) gid = Some ms"
    by (auto simp: hasGroup_def split: option.splits)
  have "\<exists>x. transformations (setIsAvailable ms s) ! j = (transformations s ! j)\<lparr>isAvailable := x\<rparr>"
  proof (cases "j \<in> set ms")
    case True
    then have "transformations (setIsAvailable ms s) ! j
        = (transformations s ! j)\<lparr>isAvailable := Some (canMakeTransform s (transformations s ! j))\<rparr>"
      using assms(2) by (simp add: nth_setIsAvailable)
    then show ?thesis by blast
  next
    case False
    then have "transformations (setIsAvailable ms s) ! j
        = (transformations s ! j)\<lparr>isAvailable := isAvailable (transformations s ! j)\<rparr>"
      using assms(2) by (simp add: nth_setIsAvailable)
    then show ?thesis by blast
  qed
  then show ?thesis
    by (simp add: refreshGroupIn_def g ms)
qed

lemma offsetIn_Some: "tokensAffected t \<noteq> [] \<Longrightarrow> \<exists>n. offsetIn s t = Some n"
  by (cases "tokensAffected t") (simp_all add: offsetIn_def getTransformOffsetHelper_def)

text \<open>The round trip on the sentence.\<close>

lemma accept_reset_sentence:
  assumes j: "j < length (transformations s)"
    and t: "transformations s ! j = t"
    and av: "isAvailable t = Some True"
    and ne: "tokensAffected t \<noteq> []"
    and rep: "hasReplacement t \<longrightarrow>
          hasGroup s j \<and> activeTokens s = before @ tokensAffected t @ after \<and>
          spliceable before (tokensAffected t) (tokensAdded t)"
  shows "\<exists>s1 s2. acceptIn j s = Some (True, s1) \<and> resetIn persist j s1 = Some (True, s2) \<and>
           length (transformations s1) = length (transformations s) \<and>
           sentenceIndex (transformations s1 ! j) = sentenceIndex t \<and>
           activeTokens s2 = activeTokens s \<and>
           status (transformations s2 ! j) = Some clean \<and>
           isAvailable (transformations s2 ! j) = Some True"
proof (cases "hasReplacement t")
  case False
  define s1 where "s1 = updTransformIn j (\<lambda>t. t\<lparr>status := Some accept\<rparr>)
                          (updTransformIn j (\<lambda>t. t\<lparr>isAvailable := Some False\<rparr>) s)"
  define s2 where "s2 = updTransformIn j (\<lambda>t. t\<lparr>status := Some clean\<rparr>)
                          (updTransformIn j (\<lambda>t. t\<lparr>isAvailable := Some True\<rparr>) s1)"
  obtain n where n: "offsetIn s t = Some n"
    using offsetIn_Some [OF ne] by blast
  have a: "acceptIn j s = Some (True, s1)"
    using False t av n by (simp add: acceptIn_def makeTransformIn_def s1_def)
  have t1: "transformations s1 ! j = t\<lparr>isAvailable := Some False, status := Some accept\<rparr>"
    using j t by (simp add: s1_def nth_updTransformIn)
  have len1: "length (transformations s1) = length (transformations s)"
    by (simp add: s1_def)
  have t2: "transformations s2 ! j = (transformations s1 ! j)\<lparr>isAvailable := Some True, status := Some clean\<rparr>"
    using j len1 by (simp add: s2_def nth_updTransformIn)
  have ne2: "tokensAffected (transformations s2 ! j) \<noteq> []"
    using ne by (simp add: t2 t1)
  obtain n2 where n2: "offsetIn s2 (transformations s2 ! j) = Some n2"
    using offsetIn_Some [OF ne2] by blast
  have r: "resetIn persist j s1 = Some (True, s2)"
    using False t1 n2
    by (simp add: resetIn_def canUndoTransform_def undoTransformIn_def s2_def [symmetric] Let_def)
  have "activeTokens s2 = activeTokens s"
    by (simp add: s2_def s1_def)
  then show ?thesis
    using a r len1 t1 t2 by simp
next
  case True
  with rep have hg: "hasGroup s j" and act: "activeTokens s = before @ tokensAffected t @ after"
    and sp: "spliceable before (tokensAffected t) (tokensAdded t)"
    by simp_all
  from sp have add_ne: "tokensAdded t \<noteq> []"
    and d1: "distinct (map id_token (tokensAffected t))"
    and d2: "distinct (map id_token (tokensAdded t))"
    and f1: "\<forall>x \<in> set (tokensAffected t). id_token x \<notin> id_token ` set before"
    and f2: "\<forall>x \<in> set (tokensAdded t). id_token x \<notin> id_token ` set before"
    by (auto simp: spliceable_def list_all_iff)
  define act1 where "act1 = before @ tokensAdded t @ after"
  have r1: "replaceTokens (activeTokens s) (tokensAffected t) (tokensAdded t) = Some act1"
    unfolding act act1_def by (rule replaceTokens_run [OF ne d1 f1])
  have hg1: "hasGroup (s\<lparr>activeTokens := act1\<rparr>) j"
    using hg by (simp add: hasGroup_iff)
  from refreshGroupIn_Some [OF hg1] j obtain sA x where
    sA: "refreshGroupIn j (s\<lparr>activeTokens := act1\<rparr>) = Some sA"
    and sA_act: "activeTokens sA = act1" and sA_gr: "groups sA = groups s"
    and sA_len: "length (transformations sA) = length (transformations s)"
    and sA_j: "transformations sA ! j = t\<lparr>isAvailable := x\<rparr>"
    using t by auto
  define s1 where "s1 = updTransformIn j (\<lambda>t. t\<lparr>status := Some accept\<rparr>)
                          (updTransformIn j (\<lambda>t. t\<lparr>isAvailable := Some False\<rparr>) sA)"
  obtain n where n: "offsetIn s t = Some n"
    using offsetIn_Some [OF ne] by blast
  have a: "acceptIn j s = Some (True, s1)"
    using True t av n r1 sA by (simp add: acceptIn_def makeTransformIn_def s1_def)
  have t1: "transformations s1 ! j = t\<lparr>isAvailable := Some False, status := Some accept\<rparr>"
    using j sA_len sA_j by (simp add: s1_def nth_updTransformIn)
  have s1_act: "activeTokens s1 = act1" and s1_gr: "groups s1 = groups s"
    and s1_len: "length (transformations s1) = length (transformations s)"
    by (simp_all add: s1_def sA_act sA_gr sA_len)
  have pr: "tokensArePresent (tokensAdded t) act1"
    unfolding act1_def by (rule present_run [OF d2 f2])
  have cu: "canUndoTransform s1 (transformations s1 ! j)"
    using True pr by (simp add: canUndoTransform_def t1 isAccepted_def s1_act)
  have r2: "replaceTokens (activeTokens s1) (tokensAdded (transformations s1 ! j))
              (tokensAffected (transformations s1 ! j)) = Some (activeTokens s)"
    unfolding s1_act act act1_def t1 using replaceTokens_run [OF add_ne d2 f2] by simp
  have hg2: "hasGroup (s1\<lparr>activeTokens := activeTokens s\<rparr>) j"
    using hg by (simp add: hasGroup_iff t1 s1_gr t)
  from refreshGroupIn_Some [OF hg2] j s1_len obtain sB y where
    sB: "refreshGroupIn j (s1\<lparr>activeTokens := activeTokens s\<rparr>) = Some sB"
    and sB_act: "activeTokens sB = activeTokens s"
    and sB_len: "length (transformations sB) = length (transformations s)"
    and sB_j: "transformations sB ! j = (transformations s1 ! j)\<lparr>isAvailable := y\<rparr>"
    by auto
  define s2 where "s2 = updTransformIn j (\<lambda>t. t\<lparr>status := Some clean\<rparr>)
                          (updTransformIn j (\<lambda>t. t\<lparr>isAvailable := Some True\<rparr>) sB)"
  have t2: "transformations s2 ! j = (transformations sB ! j)\<lparr>isAvailable := Some True, status := Some clean\<rparr>"
    using j sB_len by (simp add: s2_def nth_updTransformIn)
  have ne2: "tokensAffected (transformations s2 ! j) \<noteq> []"
    using ne by (simp add: t2 sB_j t1)
  obtain n2 where n2: "offsetIn s2 (transformations s2 ! j) = Some n2"
    using offsetIn_Some [OF ne2] by blast
  have r: "resetIn persist j s1 = Some (True, s2)"
    using cu True r2 sB n2
    by (simp add: resetIn_def undoTransformIn_def t1 s2_def [symmetric] Let_def)
  show ?thesis
    using a r s1_len t1 t2 by (auto simp: s2_def sB_act)
qed

lemma grew_refl [simp]: "grew j t t"
  unfolding grew_def by (rule exI [of _ "groupId t"], rule exI [of _ "indexInSentence t"]) simp

lemma grew_trans:
  assumes "grew j t t'" and "grew j t' t''"
  shows "grew j t t''"
proof -
  from assms(1) obtain g x where 1: "t' = t\<lparr>groupId := g, indexInSentence := x\<rparr>"
    "groupId t \<noteq> None \<longrightarrow> g = groupId t" "x = indexInSentence t \<or> x = Some j"
    unfolding grew_def by blast
  from assms(2) obtain ga xa where 2: "t'' = t'\<lparr>groupId := ga, indexInSentence := xa\<rparr>"
    "groupId t' \<noteq> None \<longrightarrow> ga = groupId t'" "xa = indexInSentence t' \<or> xa = Some j"
    unfolding grew_def by blast
  have "t'' = t\<lparr>groupId := ga, indexInSentence := xa\<rparr>"
    by (simp add: 1(1) 2(1))
  moreover have "groupId t \<noteq> None \<longrightarrow> ga = groupId t"
    using 1(2) 2(2) by (auto simp: 1(1))
  moreover have "xa = indexInSentence t \<or> xa = Some j"
    using 1(3) 2(3) by (auto simp: 1(1))
  ultimately show ?thesis
    unfolding grew_def by blast
qed

lemma listGrew_refl [simp]: "listGrew ts ts"
  by (simp add: listGrew_def)

lemma listGrew_trans: "listGrew ts ts' \<Longrightarrow> listGrew ts' ts'' \<Longrightarrow> listGrew ts ts''"
  unfolding listGrew_def by (auto intro: grew_trans)

lemma grew_index: "grew j t (t\<lparr>indexInSentence := Some j\<rparr>)"
  unfolding grew_def by (rule exI [of _ "groupId t"], rule exI [of _ "Some j"]) simp

lemma grew_group: "groupId t = None \<Longrightarrow> grew j t (t\<lparr>groupId := g\<rparr>)"
  unfolding grew_def by (rule exI [of _ g], rule exI [of _ "indexInSentence t"]) simp

lemma listGrew_update:
  assumes "j < length ts \<Longrightarrow> grew j (ts ! j) t'"
  shows "listGrew ts (ts[j := t'])"
proof -
  have "grew i (ts ! i) (ts[j := t'] ! i)" if "i < length ts" for i
    using that assms by (cases "i = j") simp_all
  then show ?thesis by (simp add: listGrew_def)
qed

lemma scanStep_grew: "listGrew (fst st) (fst (scanStep x i st))"
  by (auto simp: scanStep_def Let_def intro!: listGrew_update grew_index)

lemma scanLater_grew: "listGrew (fst st) (fst (scanLater x n st))"
proof -
  have "listGrew (fst st) (fst (fold (scanStep x) is st))" for "is"
  proof (induction "is" arbitrary: st)
    case Nil
    show ?case by simp
  next
    case (Cons i "is")
    show ?case
      using listGrew_trans [OF scanStep_grew Cons.IH [of "scanStep x i st"]] by simp
  qed
  then show ?thesis by (simp add: scanLater_def split: option.split)
qed

lemma groupLoop_grew: "listGrew (transformations s) (transformations (groupLoop g n s q))"
proof (induction g n s q rule: groupLoop.induct)
  case (1 gid n s)
  show ?case by simp
next
  case (2 gid n s j q)
  show ?case
  proof (cases "j < length (transformations s) \<and> groupId (transformations s ! j) = None")
    case True
    define nextInGroup where "nextInGroup = (transformations s ! j)\<lparr>groupId := Some gid\<rparr>"
    define ts1 where "ts1 = (transformations s)[j := nextInGroup]"
    define scanned where "scanned = scanLater nextInGroup n (ts1, q)"
    have a: "listGrew (transformations s) ts1"
      unfolding ts1_def nextInGroup_def using True by (intro listGrew_update grew_group) simp
    have b: "listGrew ts1 (fst scanned)"
      unfolding scanned_def using scanLater_grew [of "(ts1, q)"] by simp
    have c: "listGrew (fst scanned)
        (transformations (groupLoop gid n (s\<lparr>transformations := fst scanned,
            groups := groupsPush gid j (groups s)\<rparr>) (snd scanned)))"
      using 2(1) [OF True nextInGroup_def ts1_def refl scanned_def] by simp
    have "groupLoop gid n s (j # q) = groupLoop gid n (s\<lparr>transformations := fst scanned,
            groups := groupsPush gid j (groups s)\<rparr>) (snd scanned)"
      using True by (simp add: groupLoop.simps(2) Let_def scanned_def ts1_def nextInGroup_def)
    then show ?thesis
      using listGrew_trans [OF listGrew_trans [OF a b] c] by simp
  next
    case False
    then show ?thesis using 2(2) by (auto simp: groupLoop.simps(2))
  qed
qed

lemma initialised_grew: "initialised si c j t \<Longrightarrow> grew j t t' \<Longrightarrow> t' = t"
  unfolding initialised_def grew_def by auto

lemma initTransform_initialised: "initialised si c j t \<Longrightarrow> initTransform c j si t = t"
  by (auto simp: initialised_def initTransform_def Let_def)

lemma initTransform_fields [simp]:
  "transformIndex (initTransform c j si t) = Some c"
  "indexInSentence (initTransform c j si t) = Some j"
  "sentenceIndex (initTransform c j si t) = Some si"
  "status (initTransform c j si t) \<noteq> None"
  "groupId (initTransform c j si t) = groupId t"
  "isAvailable (initTransform c j si t) = isAvailable t"
  "replayKey (initTransform c j si t) = replayKey t"
  by (auto simp: initTransform_def Let_def replayKey_def isAccepted_def)

lemma grew_fields:
  assumes "grew j t t'"
  shows "transformIndex t' = transformIndex t" "sentenceIndex t' = sentenceIndex t"
    "status t' = status t" "isAvailable t' = isAvailable t" "replayKey t' = replayKey t"
    "groupId t \<noteq> None \<Longrightarrow> groupId t' = groupId t"
    "indexInSentence t = Some j \<Longrightarrow> indexInSentence t' = Some j"
  using assms unfolding grew_def by (auto simp: replayKey_def isAccepted_def)

lemma groupLoop_head:
  assumes "i < length (transformations s)"
  shows "groupId (transformations (groupLoop g n s [i]) ! i) \<noteq> None"
proof (cases "groupId (transformations s ! i) = None")
  case False
  then show ?thesis using assms by (auto simp: groupLoop.simps(2))
next
  case True
  define nextInGroup where "nextInGroup = (transformations s ! i)\<lparr>groupId := Some g\<rparr>"
  define ts1 where "ts1 = (transformations s)[i := nextInGroup]"
  define scanned where "scanned = scanLater nextInGroup n (ts1, [])"
  define s1 where "s1 = s\<lparr>transformations := fst scanned, groups := groupsPush g i (groups s)\<rparr>"
  have eq: "groupLoop g n s [i] = groupLoop g n s1 (snd scanned)"
    using True assms
    by (simp add: groupLoop.simps(2) Let_def scanned_def ts1_def nextInGroup_def s1_def)
  have g1: "groupId (ts1 ! i) = Some g"
    using assms by (simp add: ts1_def nextInGroup_def)
  have l1: "listGrew ts1 (fst scanned)"
    unfolding scanned_def using scanLater_grew [of "(ts1, [])"] by simp
  have l2: "listGrew (fst scanned) (transformations (groupLoop g n s1 (snd scanned)))"
    using groupLoop_grew [of s1 g n "snd scanned"] by (simp add: s1_def)
  have "listGrew ts1 (transformations (groupLoop g n s1 (snd scanned)))"
    by (rule listGrew_trans [OF l1 l2])
  moreover have "i < length ts1" using assms by (simp add: ts1_def)
  ultimately have "grew i (ts1 ! i) (transformations (groupLoop g n s1 (snd scanned)) ! i)"
    by (simp add: listGrew_def)
  from grew_fields(6) [OF this] g1 show ?thesis
    by (simp add: eq)
qed

lemma updateActiveTokens_Some:
  "updateActiveTokens s t = Some s' \<Longrightarrow> s' = s\<lparr>activeTokens := activeTokens s'\<rparr>"
  by (auto simp: updateActiveTokens_def split: if_splits Option.bind_splits)

lemma updateActiveTokens_cong:
  assumes "replayKey t' = replayKey t" and "activeTokens s2 = activeTokens s"
  shows "map_option activeTokens (updateActiveTokens s2 t') = map_option activeTokens (updateActiveTokens s t)"
  using assms
  by (auto simp: updateActiveTokens_def replayKey_def split: Option.bind_splits)

text \<open>A visit: what it returns and what is true of the sentence afterwards.\<close>

lemma visitTransform_result:
  assumes v: "visitTransform si n i (s, c, gc) = Some (s', c', gc')"
    and i: "i < length (transformations s)"
  shows "c' = c + 1"
    and "originalSentence s' = originalSentence s"
    and "sentenceIndex_s s' = sentenceIndex_s s"
    and "listGrew ((transformations s)[i := initTransform c i si (transformations s ! i)]) (transformations s')"
    and "groupId (transformations s' ! i) \<noteq> None"
    and "Some (activeTokens s') = map_option activeTokens (updateActiveTokens s (transformations s ! i))"
proof -
  define s1 where "s1 = updTransformIn i (initTransform c i si) s"
  have ts1: "transformations s1 = (transformations s)[i := initTransform c i si (transformations s ! i)]"
    using i by (simp add: s1_def updTransformIn_def)
  have t1: "transformations s1 ! i = initTransform c i si (transformations s ! i)"
    using i by (simp add: ts1)
  from v obtain s2 where s2: "updateActiveTokens s1 (transformations s1 ! i) = Some s2"
    and r: "(s', c', gc') = (if groupId (transformations s2 ! i) = None
        then (groupLoop gc n (s2\<lparr>groups := AList.update gc [] (groups s2)\<rparr>) [i], c + 1, gc + 1)
        else (s2, c + 1, gc))"
    by (auto simp: visitTransform_def s1_def Let_def split: if_splits Option.bind_splits)
  have ts2: "transformations s2 = transformations s1"
    and o2: "originalSentence s2 = originalSentence s"
    and x2: "sentenceIndex_s s2 = sentenceIndex_s s"
    using updateActiveTokens_fields [OF s2] by (simp_all add: s1_def)
  show "c' = c + 1" using r by (simp split: if_splits)
  show "originalSentence s' = originalSentence s"
    using r o2 by (auto split: if_splits)
  show "sentenceIndex_s s' = sentenceIndex_s s"
    using r x2 by (auto split: if_splits)
  show "listGrew ((transformations s)[i := initTransform c i si (transformations s ! i)]) (transformations s')"
  proof (cases "groupId (transformations s2 ! i) = None")
    case True
    with r have "s' = groupLoop gc n (s2\<lparr>groups := AList.update gc [] (groups s2)\<rparr>) [i]" by simp
    then show ?thesis
      using groupLoop_grew [of "s2\<lparr>groups := AList.update gc [] (groups s2)\<rparr>" gc n "[i]"]
      by (simp add: ts2 ts1)
  next
    case False
    with r have "s' = s2" by auto
    then show ?thesis by (simp add: ts2 ts1)
  qed
  show "groupId (transformations s' ! i) \<noteq> None"
  proof (cases "groupId (transformations s2 ! i) = None")
    case True
    with r have "s' = groupLoop gc n (s2\<lparr>groups := AList.update gc [] (groups s2)\<rparr>) [i]" by simp
    then show ?thesis
      using groupLoop_head [of i "s2\<lparr>groups := AList.update gc [] (groups s2)\<rparr>" gc n] i
      by (simp add: ts2 ts1)
  next
    case False
    with r have "s' = s2" by auto
    with False show ?thesis by simp
  qed
  have "activeTokens s' = activeTokens s2"
    using r by (auto split: if_splits)
  moreover have "map_option activeTokens (updateActiveTokens s1 (transformations s1 ! i))
      = map_option activeTokens (updateActiveTokens s (transformations s ! i))"
  proof (rule updateActiveTokens_cong)
    show "replayKey (transformations s1 ! i) = replayKey (transformations s ! i)"
      by (simp add: t1)
    show "activeTokens s1 = activeTokens s"
      by (simp add: s1_def)
  qed
  ultimately show "Some (activeTokens s') = map_option activeTokens (updateActiveTokens s (transformations s ! i))"
    using s2 by simp
qed

lemma visitTransform_initialised:
  assumes "initialised si c i (transformations s ! i)" and "i < length (transformations s)"
  shows "visitTransform si n i (s, c, gc)
         = map_option (\<lambda>s2. (s2, c + 1, gc)) (updateActiveTokens s (transformations s ! i))"
proof -
  have s1: "updTransformIn i (initTransform c i si) s = s"
    using assms by (simp add: updTransformIn_def initTransform_initialised)
  have g: "groupId (transformations s ! i) \<noteq> None"
    using assms(1) by (simp add: initialised_def)
  show ?thesis
  proof (cases "updateActiveTokens s (transformations s ! i)")
    case None
    then show ?thesis by (simp add: visitTransform_def s1)
  next
    case (Some s2)
    have "transformations s2 = transformations s"
      using updateActiveTokens_fields [OF Some] by simp
    then show ?thesis using Some g by (simp add: visitTransform_def s1)
  qed
qed

lemma updateActiveTokens_active:
  "map_option activeTokens (updateActiveTokens s t) =
     (if hasReplacement t \<and> isAccepted t
      then replaceTokens (activeTokens s) (tokensAffected t) (tokensAdded t)
      else Some (activeTokens s))"
  by (auto simp: updateActiveTokens_def split: Option.bind_splits)

lemma replayFrom_cong:
  "map replayKey ts = map replayKey ts' \<Longrightarrow> replayFrom ts a = replayFrom ts' a"
proof (induction ts arbitrary: ts' a)
  case Nil
  then show ?case by simp
next
  case (Cons t ts)
  then obtain t' ts'' where ts': "ts' = t' # ts''" and k: "replayKey t = replayKey t'"
    and m: "map replayKey ts = map replayKey ts''"
    by (cases ts') auto
  from k have "hasReplacement t = hasReplacement t'" "isAccepted t = isAccepted t'"
    "tokensAffected t = tokensAffected t'" "tokensAdded t = tokensAdded t'"
    by (simp_all add: replayKey_def)
  then show ?case
    using Cons.IH [OF m] by (simp add: ts' cong: Option.bind_cong)
qed

lemma replayAccepted_replayFrom:
  "replayAccepted ts s = map_option (\<lambda>a. s\<lparr>activeTokens := a\<rparr>) (replayFrom ts (activeTokens s))"
proof (induction ts arbitrary: s)
  case Nil
  show ?case by simp
next
  case (Cons t ts)
  show ?case
  proof (cases "hasReplacement t \<and> isAccepted t")
    case False
    then show ?thesis using Cons.IH [of s] by (auto simp: updateActiveTokens_def)
  next
    case True
    show ?thesis
    proof (cases "replaceTokens (activeTokens s) (tokensAffected t) (tokensAdded t)")
      case None
      with True show ?thesis by (simp add: updateActiveTokens_def)
    next
      case (Some a)
      with True show ?thesis
        using Cons.IH [of "s\<lparr>activeTokens := a\<rparr>"]
        by (cases "replayFrom ts a") (simp_all add: updateActiveTokens_def)
    qed
  qed
qed

lemma forEachTransform_first:
  assumes "forEachTransform si n [i0 ..< n] (s, c, gc) = Some (s', c', gc')"
    and "n = length (transformations s)" and "i0 \<le> n"
  shows "c' = c + (n - i0) \<and>
         originalSentence s' = originalSentence s \<and>
         sentenceIndex_s s' = sentenceIndex_s s \<and>
         length (transformations s') = n \<and>
         (\<forall>j < n. i0 \<le> j \<longrightarrow> initialised si (c + (j - i0)) j (transformations s' ! j)) \<and>
         (\<forall>j < i0. \<forall>cj. initialised si cj j (transformations s ! j) \<longrightarrow>
             transformations s' ! j = transformations s ! j) \<and>
         map replayKey (transformations s') = map replayKey (transformations s) \<and>
         replayFrom (drop i0 (transformations s)) (activeTokens s) = Some (activeTokens s')"
  using assms
proof (induction "n - i0" arbitrary: i0 s c gc)
  case 0
  then have "i0 = n" by simp
  with 0 show ?case by simp
next
  case (Suc m)
  then have lt: "i0 < n" by simp
  let ?ts = "transformations s"
  have i: "i0 < length ?ts" using lt Suc.prems(2) by simp
  from Suc.prems(1) lt obtain s1 c1 gc1 where
    v: "visitTransform si n i0 (s, c, gc) = Some (s1, c1, gc1)"
    and rest: "forEachTransform si n [Suc i0 ..< n] (s1, c1, gc1) = Some (s', c', gc')"
    by (auto simp: upt_conv_Cons split: Option.bind_splits)
  note vr = visitTransform_result [OF v i]
  let ?upd = "?ts[i0 := initTransform c i0 si (?ts ! i0)]"
  let ?mid = "transformations s1"
  have lg: "listGrew ?upd ?mid" by (rule vr(4))
  have len1: "length ?mid = n" using lg Suc.prems(2) by (simp add: listGrew_def)
  have gr: "grew j (?upd ! j) (?mid ! j)" if "j < n" for j
    using lg that Suc.prems(2) by (simp add: listGrew_def)
  have m: "m = n - Suc i0" using Suc.hyps(2) by simp
  note ih = Suc.hyps(1) [OF m rest len1 [symmetric]]
  have ih': "c' = c1 + (n - Suc i0) \<and>
         originalSentence s' = originalSentence s1 \<and>
         sentenceIndex_s s' = sentenceIndex_s s1 \<and>
         length (transformations s') = n \<and>
         (\<forall>j < n. Suc i0 \<le> j \<longrightarrow> initialised si (c1 + (j - Suc i0)) j (transformations s' ! j)) \<and>
         (\<forall>j < Suc i0. \<forall>cj. initialised si cj j (?mid ! j) \<longrightarrow>
             transformations s' ! j = ?mid ! j) \<and>
         map replayKey (transformations s') = map replayKey ?mid \<and>
         replayFrom (drop (Suc i0) ?mid) (activeTokens s1) = Some (activeTokens s')"
    using ih lt by simp
  have c1: "c1 = c + 1" by (rule vr(1))
  have init0: "initialised si c i0 (?mid ! i0)"
  proof -
    have g: "grew i0 (initTransform c i0 si (?ts ! i0)) (?mid ! i0)"
      using gr [OF lt] i by simp
    show ?thesis
      using grew_fields(1,2,3,7) [OF g] vr(5) by (simp add: initialised_def)
  qed
  have keys1: "map replayKey ?mid = map replayKey ?ts"
  proof (rule nth_equalityI)
    show "length (map replayKey ?mid) = length (map replayKey ?ts)"
      using len1 Suc.prems(2) by simp
  next
    fix j assume "j < length (map replayKey ?mid)"
    then have j: "j < n" using len1 by simp
    have "replayKey (?mid ! j) = replayKey (?upd ! j)"
      using grew_fields(5) [OF gr [OF j]] .
    also have "\<dots> = replayKey (?ts ! j)"
      using j Suc.prems(2) by (cases "j = i0") simp_all
    finally show "map replayKey ?mid ! j = map replayKey ?ts ! j"
      using j len1 Suc.prems(2) by simp
  qed
  have old: "?mid ! j = ?ts ! j" if "j < i0" "initialised si cj j (?ts ! j)" for j cj
  proof -
    have "grew j (?ts ! j) (?mid ! j)"
      using gr [of j] that(1) lt by simp
    from initialised_grew [OF that(2) this] show ?thesis .
  qed
  have "c' = c + (n - i0)" using ih' c1 lt by simp
  moreover have "originalSentence s' = originalSentence s" using ih' vr(2) by simp
  moreover have "sentenceIndex_s s' = sentenceIndex_s s" using ih' vr(3) by simp
  moreover have "length (transformations s') = n" using ih' by simp
  moreover have "initialised si (c + (j - i0)) j (transformations s' ! j)" if "j < n" "i0 \<le> j" for j
  proof (cases "j = i0")
    case True
    have "transformations s' ! i0 = ?mid ! i0"
      using ih' init0 by blast
    then show ?thesis using init0 True by simp
  next
    case False
    with that have "Suc i0 \<le> j" by simp
    with ih' that(1) have "initialised si (c1 + (j - Suc i0)) j (transformations s' ! j)" by blast
    moreover have "c1 + (j - Suc i0) = c + (j - i0)" using c1 \<open>Suc i0 \<le> j\<close> by simp
    ultimately show ?thesis by simp
  qed
  moreover have "transformations s' ! j = ?ts ! j" if "j < i0" "initialised si cj j (?ts ! j)" for j cj
  proof -
    have e: "?mid ! j = ?ts ! j" by (rule old [OF that])
    then have "initialised si cj j (?mid ! j)" using that(2) by simp
    moreover have "j < Suc i0" using that(1) by simp
    ultimately have "transformations s' ! j = ?mid ! j" using ih' by blast
    with e show ?thesis by simp
  qed
  moreover have "map replayKey (transformations s') = map replayKey ?ts"
    using ih' keys1 by simp
  moreover have "replayFrom (drop i0 ?ts) (activeTokens s) = Some (activeTokens s')"
  proof -
    have d: "drop i0 ?ts = ?ts ! i0 # drop (Suc i0) ?ts"
      using i by (simp add: Cons_nth_drop_Suc)
    have step: "(if hasReplacement (?ts ! i0) \<and> isAccepted (?ts ! i0)
                 then replaceTokens (activeTokens s) (tokensAffected (?ts ! i0)) (tokensAdded (?ts ! i0))
                 else Some (activeTokens s)) = Some (activeTokens s1)"
      using vr(6) by (simp add: updateActiveTokens_active)
    have "map replayKey (drop (Suc i0) ?ts) = map replayKey (drop (Suc i0) ?mid)"
      using keys1 by (simp add: drop_map [symmetric])
    from replayFrom_cong [OF this]
    have "replayFrom (drop (Suc i0) ?ts) (activeTokens s1) = Some (activeTokens s')"
      using ih' by simp
    then show ?thesis
      using step by (auto simp: d split: if_splits)
  qed
  ultimately show ?case by blast
qed

lemma forEachTransform_again:
  assumes "\<forall>j < n. i0 \<le> j \<longrightarrow> initialised si (c + (j - i0)) j (transformations s ! j)"
    and "n = length (transformations s)" and "i0 \<le> n"
  shows "forEachTransform si n [i0 ..< n] (s, c, gc) =
           map_option (\<lambda>a. (s\<lparr>activeTokens := a\<rparr>, c + (n - i0), gc))
             (replayFrom (drop i0 (transformations s)) (activeTokens s))"
  using assms
proof (induction "n - i0" arbitrary: i0 s c)
  case 0
  then have "i0 = n" by simp
  with 0 show ?case by simp
next
  case (Suc m)
  then have lt: "i0 < n" by simp
  let ?ts = "transformations s"
  have i: "i0 < length ?ts" using lt Suc.prems(2) by simp
  have d: "drop i0 ?ts = ?ts ! i0 # drop (Suc i0) ?ts"
    using i by (simp add: Cons_nth_drop_Suc)
  have ini: "initialised si c i0 (?ts ! i0)"
    using Suc.prems(1) lt by fastforce
  note v = visitTransform_initialised [OF ini i, of n gc]
  show ?case
  proof (cases "updateActiveTokens s (?ts ! i0)")
    case None
    then have "(if hasReplacement (?ts ! i0) \<and> isAccepted (?ts ! i0)
                 then replaceTokens (activeTokens s) (tokensAffected (?ts ! i0)) (tokensAdded (?ts ! i0))
                 else Some (activeTokens s)) = None"
      using updateActiveTokens_active [of s "?ts ! i0"] by simp
    then show ?thesis
      using v None lt by (auto simp: upt_conv_Cons d split: if_splits)
  next
    case (Some s2)
    have e2: "s2 = s\<lparr>activeTokens := activeTokens s2\<rparr>"
      by (rule updateActiveTokens_Some [OF Some])
    have ts2: "transformations s2 = ?ts"
      using updateActiveTokens_fields [OF Some] by simp
    have step: "(if hasReplacement (?ts ! i0) \<and> isAccepted (?ts ! i0)
                 then replaceTokens (activeTokens s) (tokensAffected (?ts ! i0)) (tokensAdded (?ts ! i0))
                 else Some (activeTokens s)) = Some (activeTokens s2)"
      using updateActiveTokens_active [of s "?ts ! i0"] Some by simp
    have pre: "\<forall>j < n. Suc i0 \<le> j \<longrightarrow> initialised si (c + 1 + (j - Suc i0)) j (transformations s2 ! j)"
    proof (intro allI impI)
      fix j assume "j < n" "Suc i0 \<le> j"
      then have a: "initialised si (c + (j - i0)) j (?ts ! j)" using Suc.prems(1) by simp
      have eq: "c + 1 + (j - Suc i0) = c + (j - i0)" using \<open>Suc i0 \<le> j\<close> by simp
      from a show "initialised si (c + 1 + (j - Suc i0)) j (transformations s2 ! j)"
        unfolding eq ts2 .
    qed
    have m: "m = n - Suc i0" using Suc.hyps(2) by simp
    have n2: "n = length (transformations s2)" using ts2 Suc.prems(2) by simp
    have ih: "forEachTransform si n [Suc i0 ..< n] (s2, c + 1, gc) =
           map_option (\<lambda>a. (s2\<lparr>activeTokens := a\<rparr>, c + 1 + (n - Suc i0), gc))
             (replayFrom (drop (Suc i0) ?ts) (activeTokens s2))"
      using Suc.hyps(1) [OF m pre n2] lt by (simp add: ts2)
    have upd: "s2\<lparr>activeTokens := a\<rparr> = s\<lparr>activeTokens := a\<rparr>" for a
      by (subst e2) simp
    have cnt: "c + 1 + (n - Suc i0) = c + (n - i0)" using lt by simp
    have "forEachTransform si n [i0 ..< n] (s, c, gc)
        = forEachTransform si n [Suc i0 ..< n] (s2, c + 1, gc)"
      using v Some lt by (simp add: upt_conv_Cons)
    also have "\<dots> = map_option (\<lambda>a. (s\<lparr>activeTokens := a\<rparr>, c + (n - i0), gc))
             (replayFrom (drop (Suc i0) ?ts) (activeTokens s2))"
      unfolding ih upd cnt ..
    also have "\<dots> = map_option (\<lambda>a. (s\<lparr>activeTokens := a\<rparr>, c + (n - i0), gc))
             (replayFrom (drop i0 ?ts) (activeTokens s))"
      using step by (auto simp: d split: if_splits)
    finally show ?thesis .
  qed
qed

text \<open>Running the pass on a sentence that the pass has produced.\<close>

lemma initSentence_again:
  assumes "initSentence si c s = Some (s', c')"
  shows "initSentence si c s' = Some (s'\<lparr>groups := []\<rparr>, c')"
proof -
  define n where "n = length (transformations s)"
  define sa where "sa = s\<lparr>activeTokens := originalSentence s, groups := [], sentenceIndex_s := Some si\<rparr>"
  from assms obtain sb cb gb where
    f: "forEachTransform si n [0 ..< n] (sa, c, 0) = Some (sb, cb, gb)"
    and s': "s' = setIsAvailable [0 ..< n] sb" and c': "c' = cb"
    by (auto simp: initSentence_def Let_def n_def sa_def split: Option.bind_splits)
  have na: "n = length (transformations sa)" by (simp add: n_def sa_def)
  from forEachTransform_first [OF f na]
  have cb: "cb = c + n" and ob: "originalSentence sb = originalSentence s"
    and xb: "sentenceIndex_s sb = Some si" and lb: "length (transformations sb) = n"
    and ib: "\<And>j. j < n \<Longrightarrow> initialised si (c + j) j (transformations sb ! j)"
    and kb: "map replayKey (transformations sb) = map replayKey (transformations s)"
    and rb: "replayFrom (transformations s) (originalSentence s) = Some (activeTokens sb)"
    by (simp_all add: sa_def)
  have l': "length (transformations s') = n" by (simp add: s' lb)
  have nth': "transformations s' ! j
      = (transformations sb ! j)\<lparr>isAvailable := Some (canMakeTransform sb (transformations sb ! j))\<rparr>"
    if "j < n" for j
    using that lb by (simp add: s' nth_setIsAvailable)
  have i': "initialised si (c + j) j (transformations s' ! j)" if "j < n" for j
    using ib [OF that] by (simp add: nth' [OF that] initialised_def)
  have k': "map replayKey (transformations s') = map replayKey (transformations s)"
  proof -
    have "map replayKey (transformations s') = map replayKey (transformations sb)"
      by (rule nth_equalityI) (simp_all add: l' lb nth' replayKey_def isAccepted_def)
    then show ?thesis using kb by simp
  qed
  define sa' where "sa' = s'\<lparr>activeTokens := originalSentence s', groups := [], sentenceIndex_s := Some si\<rparr>"
  have o': "originalSentence s' = originalSentence s" by (simp add: s' ob)
  have pre: "\<forall>j < n. 0 \<le> j \<longrightarrow> initialised si (c + (j - 0)) j (transformations sa' ! j)"
    using i' by (simp add: sa'_def)
  have na': "n = length (transformations sa')" by (simp add: sa'_def l')
  have "replayFrom (transformations sa') (activeTokens sa') = replayFrom (transformations s) (originalSentence s)"
    using replayFrom_cong [OF k'] by (simp add: sa'_def o')
  then have f': "forEachTransform si n [0 ..< n] (sa', c, 0)
      = Some (sa'\<lparr>activeTokens := activeTokens sb\<rparr>, c + n, 0)"
    using forEachTransform_again [OF pre na', of 0] rb by simp
  have fin: "setIsAvailable [0 ..< n] (sa'\<lparr>activeTokens := activeTokens sb\<rparr>) = s'\<lparr>groups := []\<rparr>"
  proof -
    let ?r = "setIsAvailable [0 ..< n] (sa'\<lparr>activeTokens := activeTokens sb\<rparr>)"
    have ts: "transformations ?r = transformations s'"
    proof (rule nth_equalityI)
      show "length (transformations ?r) = length (transformations s')"
        by (simp add: sa'_def)
    next
      fix j assume "j < length (transformations ?r)"
      then have j: "j < n" by (simp add: sa'_def l')
      then show "transformations ?r ! j = transformations s' ! j"
        using l' by (simp add: nth_setIsAvailable sa'_def nth' canMakeTransform_def)
    qed
    have "?r = s'\<lparr>groups := []\<rparr>"
      by (rule sentence.equality) (simp_all add: ts, simp_all add: sa'_def s' xb)
    then show ?thesis .
  qed
  have "initSentence si c s' = Option.bind (forEachTransform si n [0 ..< n] (sa', c, 0))
      (\<lambda>st. Some (setIsAvailable [0 ..< n] (fst st), fst (snd st)))"
    by (simp add: initSentence_def Let_def l' sa'_def)
  then show ?thesis
    using f' fin by (simp add: c' cb)
qed

lemma forEachSentence_again:
  "forEachSentence si c ss = Some ss' \<Longrightarrow>
   forEachSentence si c ss' = Some (map (\<lambda>s. s\<lparr>groups := []\<rparr>) ss')"
proof (induction ss arbitrary: si c ss')
  case Nil
  then show ?case by simp
next
  case (Cons s ss)
  from Cons.prems obtain r rest where r: "initSentence si c s = Some r"
    and rest: "forEachSentence (si + 1) (snd r) ss = Some rest" and ss': "ss' = fst r # rest"
    by (auto split: Option.bind_splits)
  have "initSentence si c (fst r) = Some ((fst r)\<lparr>groups := []\<rparr>, snd r)"
    using initSentence_again [of si c s "fst r" "snd r"] r by simp
  then show ?case
    using Cons.IH [OF rest] by (simp add: ss')
qed

lemma data_updateAvailableCache [simp]: "data (updateAvailableCache e) = data e"
  by (simp add: updateAvailableCache_def)

lemma weight_pos: "0 < weight ts x"
  by (induction ts) simp_all

lemma weight_added:
  assumes "topological ts" and "t \<in> set ts" and "x \<in> set (map id_token (tokensAffected t))"
  shows "tokensWeight ts (tokensAdded t) < weight ts x"
  using assms
proof (induction ts)
  case Nil
  then show ?case by simp
next
  case (Cons t0 ts)
  have same: "weight (t0 # ts) (id_token y) = weight ts (id_token y)"
    if "u \<in> set (t0 # ts)" "y \<in> set (tokensAdded u)" for u y
    using Cons.prems(1) that by (auto simp: list_all_iff)
  have w: "tokensWeight (t0 # ts) (tokensAdded u) = tokensWeight ts (tokensAdded u)"
    if "u \<in> set (t0 # ts)" for u
    unfolding tokensWeight_def using same [OF that] by (intro arg_cong [of _ _ sum_list] map_cong) simp_all
  show ?case
  proof (cases "t = t0")
    case True
    have "tokensWeight (t0 # ts) (tokensAdded t0) = tokensWeight ts (tokensAdded t0)"
      using w [of t0] by simp
    moreover have "weight (t0 # ts) x = weight ts x + tokensWeight ts (tokensAdded t0)"
      using Cons.prems(3) True by (simp add: tokensWeight_def)
    ultimately show ?thesis
      using weight_pos [of ts x] True by simp
  next
    case False
    with Cons.prems have t: "t \<in> set ts" and tp: "topological ts" by simp_all
    have "tokensWeight ts (tokensAdded t) < weight ts x"
      by (rule Cons.IH [OF tp t Cons.prems(3)])
    moreover have "weight ts x \<le> weight (t0 # ts) x" by simp
    moreover have "tokensWeight (t0 # ts) (tokensAdded t) = tokensWeight ts (tokensAdded t)"
      using w [of t] t by simp
    ultimately show ?thesis by simp
  qed
qed

lemma weight_cong:
  "map tokensAffected ts = map tokensAffected ts' \<Longrightarrow> map tokensAdded ts = map tokensAdded ts'
   \<Longrightarrow> weight ts = weight ts'"
proof (induction ts arbitrary: ts')
  case Nil
  then show ?case by simp
next
  case (Cons t ts)
  then obtain t' ts'' where ts': "ts' = t' # ts''" by (cases ts') auto
  with Cons.prems have e: "tokensAffected t = tokensAffected t'" "tokensAdded t = tokensAdded t'"
    and m: "map tokensAffected ts = map tokensAffected ts''" "map tokensAdded ts = map tokensAdded ts''"
    by simp_all
  have "weight ts = weight ts''" by (rule Cons.IH [OF m])
  then show ?case by (simp add: ts' e fun_eq_iff)
qed

lemma topological_cong:
  "map tokensAffected ts = map tokensAffected ts' \<Longrightarrow> map tokensAdded ts = map tokensAdded ts'
   \<Longrightarrow> topological ts = topological ts'"
proof (induction ts arbitrary: ts')
  case Nil
  then show ?case by simp
next
  case (Cons t ts)
  then obtain t' ts'' where ts': "ts' = t' # ts''" by (cases ts') auto
  with Cons.prems have e: "tokensAffected t = tokensAffected t'" "tokensAdded t = tokensAdded t'"
    and m: "map tokensAffected ts = map tokensAffected ts''" "map tokensAdded ts = map tokensAdded ts''"
    by simp_all
  have "topological ts = topological ts''" by (rule Cons.IH [OF m])
  moreover have "tokensAdded ` set ts = tokensAdded ` set ts''"
    using m(2) by (metis list.set_map)
  ultimately show ?case
    by (simp add: ts' e list_all_iff) (metis (no_types, lifting) imageE imageI)
qed

lemma sum_list_drop_le: "sum_list (map f (drop k xs)) \<le> sum_list (map f xs)" for f :: "'a \<Rightarrow> nat"
proof -
  have "sum_list (map f xs) = sum_list (map f (take k xs)) + sum_list (map f (drop k xs))"
    by (metis append_take_drop_id map_append sum_list.append)
  then show ?thesis by simp
qed

lemma splice_weight_less:
  fixes f :: "'a \<Rightarrow> nat"
  assumes "s \<le> e" and "s < length xs" and "sum_list (map f ins) < f (xs ! s)"
  shows "sum_list (map f (take s xs @ ins @ drop (Suc e) xs)) < sum_list (map f xs)"
proof -
  have xs: "xs = take s xs @ xs ! s # drop (Suc s) xs"
    using assms(2) by (simp add: id_take_nth_drop)
  have "drop (Suc e) xs = drop (e - s) (drop (Suc s) xs)"
    using assms(1) by simp
  then have "sum_list (map f (drop (Suc e) xs)) \<le> sum_list (map f (drop (Suc s) xs))"
    using sum_list_drop_le [of f "e - s" "drop (Suc s) xs"] by simp
  moreover have "sum_list (map f xs)
      = sum_list (map f (take s xs)) + f (xs ! s) + sum_list (map f (drop (Suc s) xs))"
    by (subst xs) simp
  ultimately show ?thesis using assms(3) by simp
qed

lemma findIndex_Some:
  "findIndex P xs = Some i \<Longrightarrow> i < length xs \<and> P (xs ! i)"
proof (induction xs arbitrary: i)
  case Nil
  then show ?case by simp
next
  case (Cons x xs)
  then show ?case by (cases i) (auto split: if_splits)
qed

text \<open>What \<^verbatim>\<open>replaceTokens\<close> returns when it returns.\<close>

lemma replaceTokens_cases:
  assumes "replaceTokens toks affected added = Some toks'"
  shows "(\<not> tokensArePresent affected toks \<and> toks' = toks) \<or>
         (tokensArePresent affected toks \<and> affected \<noteq> [] \<and>
          (\<exists>s e. s \<le> e \<and> s < length toks \<and> id_token (toks ! s) = id_token (hd affected) \<and>
                 toks' = take s toks @ added @ drop (Suc e) toks))"
proof (cases "tokensArePresent affected toks")
  case False
  with assms show ?thesis by (simp add: replaceTokens_def)
next
  case True
  with assms have ne: "affected \<noteq> []" by (auto simp: replaceTokens_def split: if_splits)
  then obtain x xs where c: "affected = x # xs" by (cases affected) auto
  from True obtain p where p: "\<forall>k < length affected.
      findIndex (\<lambda>a. id_token (affected ! k) = id_token a) toks = Some (p + k)"
    unfolding c tokensArePresent_Cons by blast
  have h: "hd affected = affected ! 0" and l: "last affected = affected ! (length affected - 1)"
    using ne by (simp_all add: hd_conv_nth last_conv_nth)
  have s: "findIndex (\<lambda>tok. id_token tok = id_token (hd affected)) toks = Some p"
    using p ne by (simp add: findIndex_eq_commute h)
  have e: "findIndex (\<lambda>tok. id_token tok = id_token (last affected)) toks
             = Some (p + (length affected - 1))"
    using p ne by (simp add: findIndex_eq_commute l)
  have r: "toks' = take p toks @ added @ drop (Suc (p + (length affected - 1))) toks"
    using assms True ne s e by (simp add: replaceTokens_def Let_def)
  from findIndex_Some [OF s] have "p < length toks" "id_token (toks ! p) = id_token (hd affected)"
    by simp_all
  with True ne r show ?thesis
    by (intro disjI2 conjI exI [of _ p] exI [of _ "p + (length affected - 1)"]) simp_all
qed

subsection \<open>Counting transformations\<close>

lemma count_le:
  assumes "length ys = length xs" and "\<forall>i < length xs. Q (ys ! i) \<longrightarrow> P (xs ! i)"
  shows "length (filter Q ys) \<le> length (filter P xs)"
  using assms
proof (induction xs arbitrary: ys)
  case Nil
  then show ?case by simp
next
  case (Cons x xs)
  then obtain y ys' where ys: "ys = y # ys'" by (cases ys) auto
  have "length (filter Q ys') \<le> length (filter P xs)"
    using Cons.prems by (intro Cons.IH) (auto simp: ys)
  moreover have "Q y \<longrightarrow> P x" using Cons.prems(2) by (auto simp: ys)
  ultimately show ?case by (auto simp: ys)
qed

lemma count_less:
  assumes "length ys = length xs" and "\<forall>i < length xs. Q (ys ! i) \<longrightarrow> P (xs ! i)"
    and "j < length xs" and "P (xs ! j)" and "\<not> Q (ys ! j)"
  shows "length (filter Q ys) < length (filter P xs)"
  using assms
proof (induction xs arbitrary: ys j)
  case Nil
  then show ?case by simp
next
  case (Cons x xs)
  then obtain y ys' where ys: "ys = y # ys'" by (cases ys) auto
  have le: "length (filter Q ys') \<le> length (filter P xs)"
    using Cons.prems(1,2) by (intro count_le) (auto simp: ys)
  have imp: "Q y \<longrightarrow> P x" using Cons.prems(2) by (auto simp: ys)
  show ?case
  proof (cases j)
    case 0
    with Cons.prems have "P x" "\<not> Q y" by (simp_all add: ys)
    with le show ?thesis by (simp add: ys)
  next
    case (Suc j')
    have "length (filter Q ys') < length (filter P xs)"
      using Cons.prems Suc by (intro Cons.IH [of ys' j']) (auto simp: ys)
    with imp show ?thesis by (auto simp: ys)
  qed
qed

lemma count_eq:
  assumes "length ys = length xs" and "\<forall>i < length xs. Q (ys ! i) = P (xs ! i)"
  shows "length (filter Q ys) = length (filter P xs)"
proof -
  have "length (filter Q ys) \<le> length (filter P xs)"
    using assms by (intro count_le) auto
  moreover have "length (filter P xs) \<le> length (filter Q ys)"
    using assms by (intro count_le) auto
  ultimately show ?thesis by simp
qed

lemma reflagged_refl [simp]: "reflagged t t"
  unfolding reflagged_def by (rule exI [of _ "isAvailable t"], rule exI [of _ "status t"]) simp

lemma reflagged_fields:
  assumes "reflagged t t'"
  shows "tokensAffected t' = tokensAffected t" "tokensAdded t' = tokensAdded t"
    "hasReplacement t' = hasReplacement t" "isSuggestion t' = isSuggestion t"
    "sentenceIndex t' = sentenceIndex t" "groupId t' = groupId t"
  using assms unfolding reflagged_def by auto

lemma setIsAvailable_reflagged:
  assumes "i < length (transformations s)"
  shows "reflagged (transformations s ! i) (transformations (setIsAvailable ms s) ! i)"
proof (cases "i \<in> set ms")
  case True
  have "transformations (setIsAvailable ms s) ! i
      = (transformations s ! i)\<lparr>isAvailable := Some (canMakeTransform s (transformations s ! i)),
                                status := status (transformations s ! i)\<rparr>"
    using True assms by (simp add: nth_setIsAvailable)
  then show ?thesis
    unfolding reflagged_def by blast
next
  case False
  then show ?thesis using assms by (simp add: nth_setIsAvailable)
qed

text \<open>The sentence after a successful accept, element by element.\<close>

lemma acceptIn_shape:
  assumes a: "acceptIn j s = Some (True, s')" and j: "j < length (transformations s)"
  shows "length (transformations s') = length (transformations s)"
    and "\<And>i. i < length (transformations s) \<Longrightarrow> reflagged (transformations s ! i) (transformations s' ! i)"
    and "isAvailable (transformations s' ! j) = Some False"
    and "\<not> hasReplacement (transformations s ! j) \<Longrightarrow>
           activeTokens s' = activeTokens s \<and>
           (\<forall>i < length (transformations s). i \<noteq> j \<longrightarrow> transformations s' ! i = transformations s ! i)"
    and "hasReplacement (transformations s ! j) \<Longrightarrow>
           replaceTokens (activeTokens s) (tokensAffected (transformations s ! j))
             (tokensAdded (transformations s ! j)) = Some (activeTokens s') \<and>
           (\<forall>i < length (transformations s). i \<noteq> j \<longrightarrow>
              transformations s' ! i = transformations s ! i \<or>
              isAvailable (transformations s' ! i)
                = Some (tokensArePresent (tokensAffected (transformations s ! i)) (activeTokens s')))"
proof -
  let ?g = "(\<lambda>t. t\<lparr>status := Some accept\<rparr>) \<circ> (\<lambda>t. t\<lparr>isAvailable := Some False\<rparr>)"
  from acceptIn_True [OF a] obtain s2 where
    s2: "(if hasReplacement (transformations s ! j)
               then do {
                 toks \<leftarrow> replaceTokens (activeTokens s) (tokensAffected (transformations s ! j))
                           (tokensAdded (transformations s ! j));
                 refreshGroupIn j (s\<lparr>activeTokens := toks\<rparr>) }
               else Some s) = Some s2"
    and e: "s' = updTransformIn j ?g s2"
    by blast
  have shape2: "length (transformations s2) = length (transformations s) \<and>
      (\<forall>i < length (transformations s). reflagged (transformations s ! i) (transformations s2 ! i))"
  proof (cases "hasReplacement (transformations s ! j)")
    case False
    with s2 show ?thesis by simp
  next
    case True
    with s2 obtain toks ms where "s2 = setIsAvailable ms (s\<lparr>activeTokens := toks\<rparr>)"
      by (auto simp: refreshGroupIn_def split: Option.bind_splits)
    then show ?thesis
      using setIsAvailable_reflagged [of _ "s\<lparr>activeTokens := toks\<rparr>" ms] by simp
  qed
  show len: "length (transformations s') = length (transformations s)"
    using shape2 by (simp add: e)
  show "reflagged (transformations s ! i) (transformations s' ! i)" if "i < length (transformations s)" for i
  proof (cases "i = j")
    case False
    then show ?thesis using shape2 that by (simp add: e nth_updTransformIn)
  next
    case True
    from shape2 that obtain a b where "transformations s2 ! i = (transformations s ! i)\<lparr>isAvailable := a, status := b\<rparr>"
      unfolding reflagged_def by blast
    then have "transformations s' ! i = (transformations s ! i)\<lparr>isAvailable := Some False, status := Some accept\<rparr>"
      using True that shape2 by (simp add: e nth_updTransformIn)
    then show ?thesis unfolding reflagged_def by blast
  qed
  show "isAvailable (transformations s' ! j) = Some False"
    using j shape2 by (simp add: e nth_updTransformIn)
  show "activeTokens s' = activeTokens s \<and>
           (\<forall>i < length (transformations s). i \<noteq> j \<longrightarrow> transformations s' ! i = transformations s ! i)"
    if "\<not> hasReplacement (transformations s ! j)"
    using that s2 by (auto simp: e nth_updTransformIn)
  show "replaceTokens (activeTokens s) (tokensAffected (transformations s ! j))
             (tokensAdded (transformations s ! j)) = Some (activeTokens s') \<and>
           (\<forall>i < length (transformations s). i \<noteq> j \<longrightarrow>
              transformations s' ! i = transformations s ! i \<or>
              isAvailable (transformations s' ! i)
                = Some (tokensArePresent (tokensAffected (transformations s ! i)) (activeTokens s')))"
    if "hasReplacement (transformations s ! j)"
  proof -
    from s2 that obtain toks ms where
      r: "replaceTokens (activeTokens s) (tokensAffected (transformations s ! j))
             (tokensAdded (transformations s ! j)) = Some toks"
      and s2e: "s2 = setIsAvailable ms (s\<lparr>activeTokens := toks\<rparr>)"
      by (auto simp: refreshGroupIn_def split: Option.bind_splits)
    have act: "activeTokens s' = toks" by (simp add: e s2e)
    have "transformations s' ! i = transformations s ! i \<or>
          isAvailable (transformations s' ! i)
            = Some (tokensArePresent (tokensAffected (transformations s ! i)) toks)"
      if "i < length (transformations s)" "i \<noteq> j" for i
      using that by (cases "i \<in> set ms")
        (simp_all add: e s2e nth_updTransformIn nth_setIsAvailable canMakeTransform_def)
    then show ?thesis using r act by simp
  qed
qed

lemma map_eq_nth:
  "length ys = length xs \<Longrightarrow> (\<And>i. i < length xs \<Longrightarrow> f (ys ! i) = f (xs ! i)) \<Longrightarrow> map f ys = map f xs"
  by (simp add: list_eq_iff_nth_eq)

lemma reflagged_maps:
  assumes "length ts' = length ts" and "\<And>i. i < length ts \<Longrightarrow> reflagged (ts ! i) (ts' ! i)"
  shows "map tokensAffected ts' = map tokensAffected ts"
    and "map tokensAdded ts' = map tokensAdded ts"
    and "map sentenceIndex ts' = map sentenceIndex ts"
    and "map isSuggestion ts' = map isSuggestion ts"
  using assms by (auto intro!: map_eq_nth dest: reflagged_fields)

lemma acceptIn_measure:
  assumes a: "acceptIn j s = Some (True, s')" and j: "j < length (transformations s)"
    and tp: "topological (transformations s)"
    and av: "isAvailable (transformations s ! j) = Some True"
  shows "(sentenceMeasure s', sentenceMeasure s) \<in> less_than <*lex*> less_than <*lex*> less_than"
proof -
  let ?ts = "transformations s" and ?ts' = "transformations s'"
  let ?t = "?ts ! j"
  note sh = acceptIn_shape [OF a j]
  have len: "length ?ts' = length ?ts" by (rule sh(1))
  have w: "weight ?ts' = weight ?ts"
    by (rule weight_cong) (rule reflagged_maps [OF len sh(2)], assumption)+
  have fields: "hasReplacement (?ts' ! i) = hasReplacement (?ts ! i)"
    "tokensAffected (?ts' ! i) = tokensAffected (?ts ! i)" if "i < length ?ts" for i
    using reflagged_fields [OF sh(2) [OF that]] by simp_all
  show ?thesis
  proof (cases "hasReplacement ?t")
    case False
    from sh(4) [OF False] have act: "activeTokens s' = activeTokens s"
      and same: "\<And>i. i < length ?ts \<Longrightarrow> i \<noteq> j \<Longrightarrow> ?ts' ! i = ?ts ! i"
      by simp_all
    have 1: "tokensWeight ?ts' (activeTokens s') = tokensWeight ?ts (activeTokens s)"
      by (simp add: tokensWeight_def w act)
    have 2: "length (filter (staleFlag (activeTokens s')) ?ts')
        = length (filter (staleFlag (activeTokens s)) ?ts)"
    proof (rule count_eq [OF len], intro allI impI)
      fix i assume i: "i < length ?ts"
      show "staleFlag (activeTokens s') (?ts' ! i) = staleFlag (activeTokens s) (?ts ! i)"
      proof (cases "i = j")
        case True
        then show ?thesis using False fields(1) [OF i] by (simp add: staleFlag_def)
      next
        case False
        then show ?thesis using same [OF i] act by simp
      qed
    qed
    have 3: "length (filter flagSet ?ts') < length (filter flagSet ?ts)"
    proof (rule count_less [OF len _ j])
      show "\<forall>i < length ?ts. flagSet (?ts' ! i) \<longrightarrow> flagSet (?ts ! i)"
      proof (intro allI impI)
        fix i assume i: "i < length ?ts" and f: "flagSet (?ts' ! i)"
        show "flagSet (?ts ! i)"
        proof (cases "i = j")
          case True
          then show ?thesis using av by (simp add: flagSet_def)
        next
          case False
          then show ?thesis using same [OF i] f by simp
        qed
      qed
      show "flagSet (?ts ! j)" using av by (simp add: flagSet_def)
      show "\<not> flagSet (?ts' ! j)" using sh(3) by (simp add: flagSet_def)
    qed
    show ?thesis using 1 2 3 by (simp add: sentenceMeasure_def)
  next
    case True
    from sh(5) [OF True] have r: "replaceTokens (activeTokens s) (tokensAffected ?t) (tokensAdded ?t)
             = Some (activeTokens s')"
      and others: "\<And>i. i < length ?ts \<Longrightarrow> i \<noteq> j \<Longrightarrow> ?ts' ! i = ?ts ! i \<or>
              isAvailable (?ts' ! i) = Some (tokensArePresent (tokensAffected (?ts ! i)) (activeTokens s'))"
      by simp_all
    from replaceTokens_cases [OF r] show ?thesis
    proof (elim disjE conjE exE)
      assume np: "\<not> tokensArePresent (tokensAffected ?t) (activeTokens s)"
        and act: "activeTokens s' = activeTokens s"
      have 1: "tokensWeight ?ts' (activeTokens s') = tokensWeight ?ts (activeTokens s)"
        by (simp add: tokensWeight_def w act)
      have 2: "length (filter (staleFlag (activeTokens s')) ?ts')
          < length (filter (staleFlag (activeTokens s)) ?ts)"
      proof (rule count_less [OF len _ j])
        show "\<forall>i < length ?ts. staleFlag (activeTokens s') (?ts' ! i) \<longrightarrow> staleFlag (activeTokens s) (?ts ! i)"
        proof (intro allI impI)
          fix i assume i: "i < length ?ts" and f: "staleFlag (activeTokens s') (?ts' ! i)"
          show "staleFlag (activeTokens s) (?ts ! i)"
          proof (cases "i = j")
            case True
            then show ?thesis using f sh(3) by (simp add: staleFlag_def)
          next
            case False
            from others [OF i False] show ?thesis
            proof
              assume "?ts' ! i = ?ts ! i"
              then show ?thesis using f act by simp
            next
              assume "isAvailable (?ts' ! i)
                  = Some (tokensArePresent (tokensAffected (?ts ! i)) (activeTokens s'))"
              then show ?thesis using f fields(2) [OF i] by (simp add: staleFlag_def)
            qed
          qed
        qed
        show "staleFlag (activeTokens s) (?ts ! j)"
          using True av np by (simp add: staleFlag_def)
        show "\<not> staleFlag (activeTokens s') (?ts' ! j)"
          using sh(3) by (simp add: staleFlag_def)
      qed
      show ?thesis using 1 2 by (simp add: sentenceMeasure_def)
    next
      fix p e
      assume ne: "tokensAffected ?t \<noteq> []" and pe: "p \<le> e" and pl: "p < length (activeTokens s)"
        and idp: "id_token (activeTokens s ! p) = id_token (hd (tokensAffected ?t))"
        and act: "activeTokens s' = take p (activeTokens s) @ tokensAdded ?t @ drop (Suc e) (activeTokens s)"
      have mem: "?t \<in> set ?ts" using j by simp
      have "id_token (hd (tokensAffected ?t)) \<in> set (map id_token (tokensAffected ?t))"
        using ne by simp
      from weight_added [OF tp mem this]
      have "sum_list (map (\<lambda>a. weight ?ts (id_token a)) (tokensAdded ?t))
          < weight ?ts (id_token (activeTokens s ! p))"
        by (simp add: tokensWeight_def idp)
      from splice_weight_less [of p e "activeTokens s" "\<lambda>a. weight ?ts (id_token a)", OF pe pl this]
      have "tokensWeight ?ts' (activeTokens s') < tokensWeight ?ts (activeTokens s)"
        by (simp add: tokensWeight_def w act)
      then show ?thesis by (simp add: sentenceMeasure_def)
    qed
  qed
qed

lemma sum_list_update_nat:
  fixes ys :: "nat list"
  assumes "k < length ys"
  shows "sum_list (ys[k := v]) + ys ! k = sum_list ys + v"
  using assms
proof (induction ys arbitrary: k)
  case Nil
  then show ?case by simp
next
  case (Cons y ys)
  then show ?case by (cases k) simp_all
qed

lemma sum_map_update:
  fixes f :: "'a \<Rightarrow> nat"
  assumes "k < length xs"
  shows "sum_list (map f (xs[k := x])) + f (xs ! k) = sum_list (map f xs) + f x"
  using sum_list_update_nat [of k "map f xs" "f x"] assms by (simp add: map_update)

lemma docMeasure_put:
  assumes g: "getSentence d k = Some s"
    and m: "(sentenceMeasure s', sentenceMeasure s) \<in> less_than <*lex*> less_than <*lex*> less_than"
  shows "(docMeasure (putSentence k s' d), docMeasure d) \<in> less_than <*lex*> less_than <*lex*> less_than"
proof -
  from getSentence_SomeD [OF g] obtain ss where ss: "rulesApplied d = Some ss" "k < length ss" "s = ss ! k"
    by blast
  have p: "rulesApplied (putSentence k s' d) = Some (ss[k := s'])"
    using ss by (simp add: putSentence_def updSentence_def)
  note u = sum_map_update [OF ss(2), of _ s']
  obtain a b c where s: "sentenceMeasure s = (a, b, c)" by (cases "sentenceMeasure s") auto
  obtain a' b' c' where s': "sentenceMeasure s' = (a', b', c')" by (cases "sentenceMeasure s'") auto
  have 1: "sum_list (map (\<lambda>s. fst (sentenceMeasure s)) (ss[k := s'])) + a
      = sum_list (map (\<lambda>s. fst (sentenceMeasure s)) ss) + a'"
    using u [of "\<lambda>s. fst (sentenceMeasure s)"] s s' ss(3) by simp
  have 2: "sum_list (map (\<lambda>s. fst (snd (sentenceMeasure s))) (ss[k := s'])) + b
      = sum_list (map (\<lambda>s. fst (snd (sentenceMeasure s))) ss) + b'"
    using u [of "\<lambda>s. fst (snd (sentenceMeasure s))"] s s' ss(3) by simp
  have 3: "sum_list (map (\<lambda>s. snd (snd (sentenceMeasure s))) (ss[k := s'])) + c
      = sum_list (map (\<lambda>s. snd (snd (sentenceMeasure s))) ss) + c'"
    using u [of "\<lambda>s. snd (snd (sentenceMeasure s))"] s s' ss(3) by simp
  from m have "a' < a \<or> (a' = a \<and> (b' < b \<or> (b' = b \<and> c' < c)))"
    by (simp add: s s')
  then show ?thesis
    using 1 2 3 by (auto simp: docMeasure_def ss(1) p)
qed

subsection \<open>One iteration of \<^verbatim>\<open>applyAll\<close>\<close>

lemma refsOK_D:
  assumes "refsOK d" and "getSentence d k = Some s" and "j < length (transformations s)"
  shows "sentenceIndex (transformations s ! j) = Some k"
proof -
  from getSentence_SomeD [OF assms(2)] obtain ss where ss: "rulesApplied d = Some ss" "k < length ss" "s = ss ! k"
    by blast
  with assms(1,3) show ?thesis
    by (simp add: refsOK_def list_all_iff)
qed

lemma refsOK_put:
  assumes "refsOK d" and "getSentence d k = Some s"
    and "map sentenceIndex (transformations s') = map sentenceIndex (transformations s)"
  shows "refsOK (putSentence k s' d)"
proof -
  from getSentence_SomeD [OF assms(2)] obtain ss where ss: "rulesApplied d = Some ss" "k < length ss" "s = ss ! k"
    by blast
  have p: "rulesApplied (putSentence k s' d) = Some (ss[k := s'])"
    using ss by (simp add: putSentence_def updSentence_def)
  have old: "\<forall>t \<in> set (transformations s). sentenceIndex t = Some k"
    using assms(1) ss by (simp add: refsOK_def list_all_iff)
  have "set (map sentenceIndex (transformations s')) = set (map sentenceIndex (transformations s))"
    using assms(3) by simp
  with old have new: "\<forall>t \<in> set (transformations s'). sentenceIndex t = Some k"
    by (metis (no_types, lifting) image_iff list.set_map)
  show ?thesis
    unfolding refsOK_def p using assms(1) ss new
    by (auto simp: refsOK_def list_all_iff nth_list_update)
qed

lemma topologicalDoc_put:
  assumes "topologicalDoc d" and "getSentence d k = Some s"
    and "topological (transformations s')"
  shows "topologicalDoc (putSentence k s' d)"
proof -
  from getSentence_SomeD [OF assms(2)] obtain ss where ss: "rulesApplied d = Some ss" "k < length ss" "s = ss ! k"
    by blast
  have p: "rulesApplied (putSentence k s' d) = Some (ss[k := s'])"
    using ss by (simp add: putSentence_def updSentence_def)
  show ?thesis
    unfolding topologicalDoc_def p using assms(1,3) ss
    by (auto simp: topologicalDoc_def list_all_iff dest!: subsetD [OF set_update_subset_insert])
qed

lemma topologicalDoc_D:
  "topologicalDoc d \<Longrightarrow> getSentence d k = Some s \<Longrightarrow> topological (transformations s)"
  by (auto simp: topologicalDoc_def list_all_iff dest!: getSentence_SomeD)

lemma accept_step:
  assumes ok: "editorOK e" and r: "r \<in> set (allAvailableTransforms e)"
    and a: "editor_acceptCorrection r e = Some res"
  shows "fst res \<and> editorOK (snd res) \<and>
         (docMeasure (data (snd res)), docMeasure (data e))
           \<in> less_than <*lex*> less_than <*lex*> less_than"
proof -
  let ?d = "data e"
  obtain k j where kj: "r = (k, j)" by (cases r)
  from ok r have av: "availableInCache ?d (ignoreNoReplacement e) r"
    by (simp add: editorOK_def)
  then obtain t where t: "getTransform ?d r = Some t" and fl: "isAvailable t = Some True"
    by (auto simp: availableInCache_def split: option.splits)
  from t obtain s where g: "getSentence ?d k = Some s" and j: "j < length (transformations s)"
    and te: "t = transformations s ! j"
    by (auto simp: getTransform_Some kj)
  from ok have ro: "refsOK ?d" and td: "topologicalDoc ?d" by (simp_all add: editorOK_def)
  have si: "sentenceIndex (transformations s ! j) = Some k"
    by (rule refsOK_D [OF ro g j])
  have tp: "topological (transformations s)"
    by (rule topologicalDoc_D [OF td g])
  from a obtain r0 where r0: "acceptCorrection ?d r = Some r0"
    and res: "res = (if fst r0 then (True, pushAction r (snd r0) e) else (False, e))"
    by (auto simp: editor_acceptCorrection_def split: Option.bind_splits if_splits)
  from r0 obtain r1 where r1: "acceptIn j s = Some r1" and r0e: "r0 = (fst r1, putSentence k (snd r1) ?d)"
    by (auto simp: kj acceptCorrection_sentence [OF g j si])
  have "fst r1"
    using r1 fl te by (auto simp: acceptIn_def split: Option.bind_splits)
  then have acc: "acceptIn j s = Some (True, snd r1)" using r1 by (cases r1) simp
  have res': "res = (True, pushAction r (putSentence k (snd r1) ?d) e)"
    using res r0e \<open>fst r1\<close> by simp
  note sh = acceptIn_shape(1,2) [OF acc j]
  have m: "(sentenceMeasure (snd r1), sentenceMeasure s) \<in> less_than <*lex*> less_than <*lex*> less_than"
    using fl te by (intro acceptIn_measure [OF acc j tp]) simp
  have tp': "topological (transformations (snd r1))"
    using topological_cong [OF reflagged_maps(1,2) [OF sh]] tp by simp
  have "editorOK (pushAction r (putSentence k (snd r1) ?d) e)"
    unfolding editorOK_def
    using refsOK_put [OF ro g reflagged_maps(3) [OF sh]] topologicalDoc_put [OF td g tp']
    by (simp add: pushAction_def updateAvailableCache_def)
  moreover have "data (pushAction r (putSentence k (snd r1) ?d) e) = putSentence k (snd r1) ?d"
    by (simp add: pushAction_def updateAvailableCache_def)
  ultimately show ?thesis
    using docMeasure_put [OF g m] by (simp add: res')
qed

subsection \<open>\<^verbatim>\<open>applyAll\<close> with suggestions skipped\<close>

lemma getNextNonSuggestion_Some:
  assumes "getNextNonSuggestion e = Some r"
  shows "r \<in> set (allAvailableTransforms e)" and "notSuggestion (data e) r"
  using assms unfolding getNextNonSuggestion_def
  by (auto simp: find_Some_iff)

lemma applyAll_calls:
  assumes "applyAll ig e calls = Some y"
  shows "ig \<and> list_all (\<lambda>t. \<not> isSuggestion t) calls \<longrightarrow> list_all (\<lambda>t. \<not> isSuggestion t) (snd y)"
proof (rule applyAll.raw_induct
    [where P = "\<lambda>ig e calls y. ig \<and> list_all (\<lambda>t. \<not> isSuggestion t) calls
                   \<longrightarrow> list_all (\<lambda>t. \<not> isSuggestion t) (snd y)", OF _ assms])
  fix applyAll' ig e calls y
  assume 1: "\<And>ig e calls y. applyAll' ig e calls = Some y \<Longrightarrow>
        ig \<and> list_all (\<lambda>t. \<not> isSuggestion t) calls \<longrightarrow> list_all (\<lambda>t. \<not> isSuggestion t) (snd y)"
    "(if hasNextTransform ig e
      then (case getNextTransform ig e of
              None \<Rightarrow> Some (None, calls)
            | Some r \<Rightarrow>
                (case getTransform (data e) r of
                   None \<Rightarrow> Some (None, calls)
                 | Some transform \<Rightarrow>
                     (case editor_acceptCorrection r e of
                        None \<Rightarrow> Some (None, calls @ [transform])
                      | Some res \<Rightarrow> applyAll' ig (snd res) (calls @ [transform]))))
      else Some (Some e, calls)) = Some y"
  show "ig \<and> list_all (\<lambda>t. \<not> isSuggestion t) calls \<longrightarrow> list_all (\<lambda>t. \<not> isSuggestion t) (snd y)"
  proof (intro impI)
    assume h: "ig \<and> list_all (\<lambda>t. \<not> isSuggestion t) calls"
    show "list_all (\<lambda>t. \<not> isSuggestion t) (snd y)"
    proof (cases "hasNextTransform ig e")
      case False
      with 1(2) h show ?thesis by auto
    next
      case True
      show ?thesis
      proof (cases "getNextTransform ig e")
        case None
        with 1(2) True h show ?thesis by auto
      next
        case (Some r)
        with h have nn: "getNextNonSuggestion e = Some r" by (simp add: getNextTransform_def)
        show ?thesis
        proof (cases "getTransform (data e) r")
          case None
          with 1(2) True Some h show ?thesis by auto
        next
          case t: (Some transform)
          have ns: "\<not> isSuggestion transform"
            using getNextNonSuggestion_Some(2) [OF nn] t by (simp add: notSuggestion_def)
          show ?thesis
          proof (cases "editor_acceptCorrection r e")
            case None
            with 1(2) True Some t h ns show ?thesis by auto
          next
            case res: (Some res)
            with 1(2) True Some t have "applyAll' ig (snd res) (calls @ [transform]) = Some y"
              by simp
            from 1(1) [OF this] h ns show ?thesis by simp
          qed
        qed
      qed
    qed
  qed
qed

lemma applyAll_terminates:
  assumes "editorOK e"
  shows "\<exists>y. applyAll True e calls = Some y"
proof -
  have "wf (inv_image (less_than <*lex*> less_than <*lex*> less_than)
              (\<lambda>e :: editor. docMeasure (data e)))"
    by (intro wf_inv_image wf_lex_prod wf_less_than)
  then show ?thesis
    using assms
proof (induction e arbitrary: calls rule: wf_induct_rule)
  case (less e)
  note 1 = less
  show ?case
  proof (cases "hasNextTransform True e")
    case False
    then show ?thesis by (subst applyAll.simps) simp
  next
    case True
    then obtain r where nn: "getNextNonSuggestion e = Some r"
      by (auto simp: hasNextTransform_def)
    then have gn: "getNextTransform True e = Some r" by (simp add: getNextTransform_def)
    show ?thesis
    proof (cases "getTransform (data e) r")
      case None
      with True gn show ?thesis by (subst applyAll.simps) simp
    next
      case t: (Some transform)
      show ?thesis
      proof (cases "editor_acceptCorrection r e")
        case None
        with True gn t show ?thesis by (subst applyAll.simps) simp
      next
        case res: (Some res)
        from accept_step [OF 1(2) getNextNonSuggestion_Some(1) [OF nn] res]
        have ok: "editorOK (snd res)"
          and dec: "(docMeasure (data (snd res)), docMeasure (data e))
                \<in> less_than <*lex*> less_than <*lex*> less_than"
          by simp_all
        from dec have "(snd res, e) \<in> inv_image (less_than <*lex*> less_than <*lex*> less_than)
              (\<lambda>e. docMeasure (data e))"
          by simp
        from 1(1) [OF this ok, of "calls @ [transform]"]
        obtain y where "applyAll True (snd res) (calls @ [transform]) = Some y" by blast
        with True gn t res show ?thesis by (subst applyAll.simps) simp
      qed
    qed
  qed
qed
qed

subsection \<open>The editor made on a document as the service returns it\<close>

lemma initSentence_refs:
  assumes "initSentence si c s = Some r"
  shows "list_all (\<lambda>t. sentenceIndex t = Some si) (transformations (fst r))"
    and "map replayKey (transformations (fst r)) = map replayKey (transformations s)"
proof -
  define n where "n = length (transformations s)"
  define sa where "sa = s\<lparr>activeTokens := originalSentence s, groups := [], sentenceIndex_s := Some si\<rparr>"
  from assms obtain sb cb gb where
    f: "forEachTransform si n [0 ..< n] (sa, c, 0) = Some (sb, cb, gb)"
    and s': "fst r = setIsAvailable [0 ..< n] sb"
    by (auto simp: initSentence_def Let_def n_def sa_def split: Option.bind_splits)
  have na: "n = length (transformations sa)" by (simp add: n_def sa_def)
  from forEachTransform_first [OF f na]
  have lb: "length (transformations sb) = n"
    and ib: "\<And>j. j < n \<Longrightarrow> initialised si (c + j) j (transformations sb ! j)"
    and kb: "map replayKey (transformations sb) = map replayKey (transformations s)"
    by (simp_all add: sa_def)
  have l': "length (transformations (fst r)) = n" by (simp add: s' lb)
  have nth': "transformations (fst r) ! j
      = (transformations sb ! j)\<lparr>isAvailable := Some (canMakeTransform sb (transformations sb ! j))\<rparr>"
    if "j < n" for j
    using that lb by (simp add: s' nth_setIsAvailable)
  have "sentenceIndex (transformations (fst r) ! j) = Some si" if "j < n" for j
    using ib [OF that] by (simp add: nth' [OF that] initialised_def)
  then show "list_all (\<lambda>t. sentenceIndex t = Some si) (transformations (fst r))"
    using l' by (auto simp: list_all_iff in_set_conv_nth)
  have "map replayKey (transformations (fst r)) = map replayKey (transformations sb)"
    by (rule nth_equalityI) (simp_all add: l' lb nth' replayKey_def isAccepted_def)
  then show "map replayKey (transformations (fst r)) = map replayKey (transformations s)"
    using kb by simp
qed

lemma forEachSentence_nth:
  "forEachSentence si c ss = Some ss' \<Longrightarrow>
   length ss' = length ss \<and>
   (\<forall>k < length ss. \<exists>c' r. initSentence (si + k) c' (ss ! k) = Some r \<and> ss' ! k = fst r)"
proof (induction ss arbitrary: si c ss')
  case Nil
  then show ?case by simp
next
  case (Cons s ss)
  from Cons.prems obtain r rest where r: "initSentence si c s = Some r"
    and rest: "forEachSentence (si + 1) (snd r) ss = Some rest" and ss': "ss' = fst r # rest"
    by (auto split: Option.bind_splits)
  note ih = Cons.IH [OF rest]
  show ?case
  proof (intro conjI allI impI)
    show "length ss' = length (s # ss)" using ih by (simp add: ss')
  next
    fix k assume k: "k < length (s # ss)"
    show "\<exists>c' r. initSentence (si + k) c' ((s # ss) ! k) = Some r \<and> ss' ! k = fst r"
    proof (cases k)
      case 0
      show ?thesis
        unfolding 0 by (rule exI [of _ c], rule exI [of _ r]) (simp add: r ss')
    next
      case (Suc m)
      with k have "m < length ss" by simp
      with ih obtain c' r' where "initSentence (si + 1 + m) c' (ss ! m) = Some r'" "rest ! m = fst r'"
        by blast
      then show ?thesis
        unfolding Suc by (intro exI [of _ c'] exI [of _ r']) (simp add: ss')
    qed
  qed
qed

lemma topological_replayKey:
  assumes "map replayKey ts' = map replayKey ts"
  shows "topological ts' = topological ts"
proof -
  have a: "map tokensAffected us = map (\<lambda>k. fst (snd (snd k))) (map replayKey us)"
    and b: "map tokensAdded us = map (\<lambda>k. snd (snd (snd k))) (map replayKey us)"
    for us :: "transformation list"
    by (simp_all add: replayKey_def)
  have "map tokensAffected ts' = map tokensAffected ts"
    unfolding a assms ..
  moreover have "map tokensAdded ts' = map tokensAdded ts"
    unfolding b assms ..
  ultimately show ?thesis by (rule topological_cong)
qed

lemma setMetaData_editorOK:
  assumes "setMetaData d0 = Some d" and "rulesApplied d0 = Some ss0" and "topologicalDoc d0"
  shows "refsOK d \<and> topologicalDoc d \<and> hasMeta d"
proof -
  from assms(1,2) obtain ss where f: "forEachSentence 0 0 ss0 = Some ss"
    and d: "d = d0\<lparr>rulesApplied := Some ss, hasMeta := True\<rparr>"
    by (auto simp: setMetaData_def split: Option.bind_splits)
  from forEachSentence_nth [OF f] have len: "length ss = length ss0"
    and nth: "\<And>k. k < length ss0 \<Longrightarrow> \<exists>c' r. initSentence k c' (ss0 ! k) = Some r \<and> ss ! k = fst r"
    by simp_all
  have "list_all (\<lambda>t. sentenceIndex t = Some k) (transformations (ss ! k))" if "k < length ss0" for k
  proof -
    from nth [OF that] obtain c' r where r: "initSentence k c' (ss0 ! k) = Some r" "ss ! k = fst r"
      by blast
    from initSentence_refs(1) [OF r(1)] show ?thesis by (simp add: r(2))
  qed
  then have "refsOK d"
    unfolding refsOK_def d using len by (simp add: list_all_iff)
  moreover have "topological (transformations (ss ! k))" if "k < length ss0" for k
  proof -
    from nth [OF that] obtain c' r where r: "initSentence k c' (ss0 ! k) = Some r" "ss ! k = fst r"
      by blast
    have "topological (transformations (ss0 ! k))"
      using assms(2,3) that by (simp add: topologicalDoc_def list_all_iff)
    then show ?thesis
      using topological_replayKey [OF initSentence_refs(2) [OF r(1)]] r(2) by simp
  qed
  then have "topologicalDoc d"
    unfolding topologicalDoc_def d using len by (auto simp: list_all_iff in_set_conv_nth)
  ultimately show ?thesis by (simp add: d)
qed

lemma fresh_editorOK:
  assumes "interactiveEditor d0 ignoreNoRepl = Some e" and "\<not> hasMeta d0" and "topologicalDoc d0"
  shows "editorOK e"
proof -
  from assms(1,2) obtain d ss where d: "setMetaData d0 = Some d" and ss: "rulesApplied d = Some ss"
    and e: "e = updateAvailableCache
               \<lparr>data = d, ignoreNoReplacement = ignoreNoRepl, flattenedTransforms = flattenTransforms ss,
                transformStack = filter (notClean d) (flattenTransforms ss),
                transStackSize = length (filter (notClean d) (flattenTransforms ss)),
                allAvailableTransforms = []\<rparr>"
    by (auto simp: interactiveEditor_def Let_def split: Option.bind_splits)
  from d ss obtain ss0 where ss0: "rulesApplied d0 = Some ss0"
    by (cases "rulesApplied d0") (auto simp: setMetaData_def)
  from setMetaData_editorOK [OF d ss0 assms(3)] show ?thesis
    by (simp add: editorOK_def e updateAvailableCache_def)
qed

lemma replaceTokens_Some: "affected \<noteq> [] \<Longrightarrow> \<exists>toks'. replaceTokens toks affected added = Some toks'"
  by (simp add: replaceTokens_def Let_def split: option.splits)

lemma hasGroup_activeTokens [simp]: "hasGroup (s\<lparr>activeTokens := toks\<rparr>) j = hasGroup s j"
  by (simp add: hasGroup_iff)

lemma acceptIn_Some:
  assumes j: "j < length (transformations s)" and fl: "isAvailable (transformations s ! j) = Some True"
    and safe: "acceptSafe s"
  shows "\<exists>s'. acceptIn j s = Some (True, s')"
proof -
  let ?t = "transformations s ! j"
  from safe j have ne: "tokensAffected ?t \<noteq> []" and hg: "hasReplacement ?t \<longrightarrow> hasGroup s j"
    by (simp_all add: acceptSafe_def list_all_iff)
  from offsetIn_Some [OF ne] obtain n where n: "offsetIn s ?t = Some n" by blast
  have "\<exists>s2. makeTransformIn j s = Some s2"
  proof (cases "hasReplacement ?t")
    case False
    then show ?thesis by (simp add: makeTransformIn_def)
  next
    case True
    from replaceTokens_Some [OF ne] obtain toks where
      toks: "replaceTokens (activeTokens s) (tokensAffected ?t) (tokensAdded ?t) = Some toks"
      by blast
    from True hg have "hasGroup (s\<lparr>activeTokens := toks\<rparr>) j" by simp
    from refreshGroupIn_Some [OF this] j obtain s3 where
      "refreshGroupIn j (s\<lparr>activeTokens := toks\<rparr>) = Some s3"
      by auto
    with True toks show ?thesis by (simp add: makeTransformIn_def)
  qed
  then obtain s2 where "makeTransformIn j s = Some s2" by blast
  with fl n show ?thesis by (simp add: acceptIn_def)
qed

lemma acceptIn_groups:
  assumes "acceptIn j s = Some (True, s')"
  shows "groups s' = groups s"
proof -
  from acceptIn_True [OF assms] obtain s2 where
    s2: "(if hasReplacement (transformations s ! j)
               then do {
                 toks \<leftarrow> replaceTokens (activeTokens s) (tokensAffected (transformations s ! j))
                           (tokensAdded (transformations s ! j));
                 refreshGroupIn j (s\<lparr>activeTokens := toks\<rparr>) }
               else Some s) = Some s2"
    and e: "groups s' = groups s2"
    by auto
  from s2 have "groups s2 = groups s"
    by (auto simp: refreshGroupIn_def split: if_splits Option.bind_splits)
  with e show ?thesis by simp
qed

lemma acceptIn_safe:
  assumes a: "acceptIn j s = Some (True, s')" and j: "j < length (transformations s)"
    and safe: "acceptSafe s"
  shows "acceptSafe s'"
proof -
  note sh = acceptIn_shape(1,2) [OF a j]
  note g = acceptIn_groups [OF a]
  have "tokensAffected (transformations s' ! i) \<noteq> [] \<and>
        (hasReplacement (transformations s' ! i) \<longrightarrow> hasGroup s' i)"
    if i: "i < length (transformations s)" for i
  proof -
    note f = reflagged_fields [OF sh(2) [OF i]]
    from safe i have "tokensAffected (transformations s ! i) \<noteq> []"
      and "hasReplacement (transformations s ! i) \<longrightarrow> hasGroup s i"
      by (simp_all add: acceptSafe_def list_all_iff)
    then show ?thesis
      by (simp add: f hasGroup_iff g)
  qed
  then show ?thesis
    by (simp add: acceptSafe_def list_all_iff sh(1))
qed

lemma acceptSafeDoc_D:
  "acceptSafeDoc d \<Longrightarrow> getSentence d k = Some s \<Longrightarrow> acceptSafe s"
  by (auto simp: acceptSafeDoc_def list_all_iff dest!: getSentence_SomeD)

lemma acceptSafeDoc_put:
  assumes "acceptSafeDoc d" and "getSentence d k = Some s" and "acceptSafe s'"
  shows "acceptSafeDoc (putSentence k s' d)"
proof -
  from getSentence_SomeD [OF assms(2)] obtain ss where ss: "rulesApplied d = Some ss" "k < length ss" "s = ss ! k"
    by blast
  have p: "rulesApplied (putSentence k s' d) = Some (ss[k := s'])"
    using ss by (simp add: putSentence_def updSentence_def)
  show ?thesis
    unfolding acceptSafeDoc_def p using assms(1,3) ss
    by (auto simp: acceptSafeDoc_def list_all_iff dest!: subsetD [OF set_update_subset_insert])
qed

lemma accept_step_safe:
  assumes ok: "editorOK e" and safe: "acceptSafeDoc (data e)"
    and r: "r \<in> set (allAvailableTransforms e)"
  shows "\<exists>res. editor_acceptCorrection r e = Some res \<and> acceptSafeDoc (data (snd res))"
proof -
  let ?d = "data e"
  obtain k j where kj: "r = (k, j)" by (cases r)
  from ok r have av: "availableInCache ?d (ignoreNoReplacement e) r"
    by (simp add: editorOK_def)
  then obtain t where t: "getTransform ?d r = Some t" and fl: "isAvailable t = Some True"
    by (auto simp: availableInCache_def split: option.splits)
  from t obtain s where g: "getSentence ?d k = Some s" and j: "j < length (transformations s)"
    and te: "t = transformations s ! j"
    by (auto simp: getTransform_Some kj)
  from ok have ro: "refsOK ?d" by (simp add: editorOK_def)
  have si: "sentenceIndex (transformations s ! j) = Some k"
    by (rule refsOK_D [OF ro g j])
  note ss = acceptSafeDoc_D [OF safe g]
  from acceptIn_Some [OF j _ ss] fl te obtain s' where a: "acceptIn j s = Some (True, s')"
    by auto
  have ac: "acceptCorrection ?d r = Some (True, putSentence k s' ?d)"
    by (simp add: kj acceptCorrection_sentence [OF g j si] a)
  have ea: "editor_acceptCorrection r e = Some (True, pushAction r (putSentence k s' ?d) e)"
    by (simp add: editor_acceptCorrection_def ac)
  have "acceptSafeDoc (putSentence k s' ?d)"
    by (rule acceptSafeDoc_put [OF safe g acceptIn_safe [OF a j ss]])
  then show ?thesis
    by (simp add: ea pushAction_def updateAvailableCache_def)
qed

lemma applyAll_returns:
  assumes "applyAll ig e calls = Some y"
  shows "ig \<and> editorOK e \<and> acceptSafeDoc (data e) \<longrightarrow>
         (\<exists>e'. fst y = Some e' \<and> \<not> hasNextTransform True e')"
proof (rule applyAll.raw_induct
    [where P = "\<lambda>ig e calls y. ig \<and> editorOK e \<and> acceptSafeDoc (data e) \<longrightarrow>
         (\<exists>e'. fst y = Some e' \<and> \<not> hasNextTransform True e')", OF _ assms])
  fix applyAll' ig e calls y
  assume 1: "\<And>ig e calls y. applyAll' ig e calls = Some y \<Longrightarrow>
        ig \<and> editorOK e \<and> acceptSafeDoc (data e) \<longrightarrow>
         (\<exists>e'. fst y = Some e' \<and> \<not> hasNextTransform True e')"
    "(if hasNextTransform ig e
      then (case getNextTransform ig e of
              None \<Rightarrow> Some (None, calls)
            | Some r \<Rightarrow>
                (case getTransform (data e) r of
                   None \<Rightarrow> Some (None, calls)
                 | Some transform \<Rightarrow>
                     (case editor_acceptCorrection r e of
                        None \<Rightarrow> Some (None, calls @ [transform])
                      | Some res \<Rightarrow> applyAll' ig (snd res) (calls @ [transform]))))
      else Some (Some e, calls)) = Some y"
  show "ig \<and> editorOK e \<and> acceptSafeDoc (data e) \<longrightarrow>
         (\<exists>e'. fst y = Some e' \<and> \<not> hasNextTransform True e')"
  proof (intro impI)
    assume h: "ig \<and> editorOK e \<and> acceptSafeDoc (data e)"
    then have ig: "ig = True" and ok: "editorOK e" and safe: "acceptSafeDoc (data e)" by simp_all
    show "\<exists>e'. fst y = Some e' \<and> \<not> hasNextTransform True e'"
    proof (cases "hasNextTransform True e")
      case False
      with 1(2) show ?thesis by (auto simp: ig)
    next
      case True
      then obtain r where nn: "getNextNonSuggestion e = Some r"
        by (auto simp: hasNextTransform_def)
      then have gn: "getNextTransform True e = Some r" by (simp add: getNextTransform_def)
      note rc = getNextNonSuggestion_Some(1) [OF nn]
      from ok rc obtain t where t: "getTransform (data e) r = Some t"
        by (auto simp: editorOK_def availableInCache_def split: option.splits)
      from accept_step_safe [OF ok safe rc] obtain res where
        res: "editor_acceptCorrection r e = Some res" and safe': "acceptSafeDoc (data (snd res))"
        by blast
      from accept_step [OF ok rc res] have ok': "editorOK (snd res)" by simp
      from 1(2) True gn t res have "applyAll' ig (snd res) (calls @ [t]) = Some y"
        by (simp add: ig)
      from 1(1) [OF this] ok' safe' ig show ?thesis by simp
    qed
  qed
qed

lemma grouped_iff:
  "grouped s \<longleftrightarrow>
     (\<forall>j < length (transformations s). \<forall>gid. groupId (transformations s ! j) = Some gid
         \<longrightarrow> map_of (groups s) gid \<noteq> None)"
  by (auto simp: grouped_def list_all_length split: option.splits)

lemma groupsPush_dom: "map_of (groupsPush gid j gs) g \<noteq> None \<longleftrightarrow> map_of gs g \<noteq> None"
  by (auto simp: groupsPush_def update_conv' split: option.splits if_splits)

lemma groupLoop_grouped:
  "grouped s \<Longrightarrow> map_of (groups s) gid \<noteq> None \<Longrightarrow> grouped (groupLoop gid n s q)"
proof (induction gid n s q rule: groupLoop.induct)
  case (1 gid n s)
  then show ?case by simp
next
  case (2 gid n s j q)
  show ?case
  proof (cases "j < length (transformations s) \<and> groupId (transformations s ! j) = None")
    case False
    have "groupLoop gid n s (j # q) = groupLoop gid n s q"
      by (subst groupLoop.simps(2)) (simp only: False if_False)
    with "2.IH"(2) [OF False "2.prems"] show ?thesis by simp
  next
    case True
    define nextInGroup where "nextInGroup = (transformations s ! j)\<lparr>groupId := Some gid\<rparr>"
    define ts1 where "ts1 = (transformations s)[j := nextInGroup]"
    define groups1 where "groups1 = groupsPush gid j (groups s)"
    define scanned where "scanned = scanLater nextInGroup n (ts1, q)"
    define s1 where "s1 = s\<lparr>transformations := fst scanned, groups := groups1\<rparr>"
    have unfold: "groupLoop gid n s (j # q) = groupLoop gid n s1 (snd scanned)"
      using True
      by (simp add: groupLoop.simps(2) Let_def nextInGroup_def ts1_def groups1_def scanned_def s1_def)
    have m: "map groupId (fst scanned) = map groupId ts1"
      unfolding scanned_def using scanLater_map [of groupId nextInGroup n "(ts1, q)"] by simp
    have l: "length (fst scanned) = length (transformations s)"
      using arg_cong [OF m, of length] by (simp add: ts1_def)
    have g1: "map_of groups1 gid \<noteq> None"
      using "2.prems"(2) groupsPush_dom [of gid j "groups s" gid] unfolding groups1_def by blast
    have "grouped s1"
      unfolding grouped_iff
    proof (intro allI impI)
      fix i g
      assume i: "i < length (transformations s1)" and g: "groupId (transformations s1 ! i) = Some g"
      from i have i': "i < length (transformations s)" by (simp add: s1_def l)
      have "groupId (transformations s1 ! i) = map groupId (fst scanned) ! i"
        using i by (simp add: s1_def)
      also have "\<dots> = groupId (ts1 ! i)"
        unfolding m using i' by (simp add: ts1_def)
      finally have e: "groupId (ts1 ! i) = Some g" using g by simp
      show "map_of (groups s1) g \<noteq> None"
      proof (cases "i = j")
        case True
        with e i' have "g = gid" by (simp add: ts1_def nextInGroup_def)
        with g1 show ?thesis by (simp add: s1_def)
      next
        case False
        with e i' have "groupId (transformations s ! i) = Some g" by (simp add: ts1_def)
        with "2.prems"(1) i' have "map_of (groups s) g \<noteq> None" by (simp add: grouped_iff)
        then have "map_of groups1 g \<noteq> None"
          using groupsPush_dom [of gid j "groups s" g] unfolding groups1_def by blast
        then show ?thesis by (simp add: s1_def)
      qed
    qed
    moreover have "map_of (groups s1) gid \<noteq> None" using g1 by (simp add: s1_def)
    ultimately have "grouped (groupLoop gid n s1 (snd scanned))"
      using "2.IH"(1) [OF True nextInGroup_def ts1_def groups1_def scanned_def]
      by (simp add: s1_def)
    then show ?thesis by (simp add: unfold)
  qed
qed

lemma visitTransform_grouped:
  assumes v: "visitTransform si n i (s, c, gc) = Some (s', c', gc')" and g: "grouped s"
  shows "grouped s'"
proof -
  define s1 where "s1 = updTransformIn i (initTransform c i si) s"
  from v obtain s2 where s2: "updateActiveTokens s1 (transformations s1 ! i) = Some s2"
    and s': "s' = (if groupId (transformations s2 ! i) = None
        then groupLoop gc n (s2\<lparr>groups := AList.update gc [] (groups s2)\<rparr>) [i]
        else s2)"
    by (auto simp: visitTransform_def s1_def Let_def split: if_splits Option.bind_splits)
  have m1: "map groupId (transformations s1) = map groupId (transformations s)"
    unfolding s1_def updTransformIn_def
    using map_update_same [of groupId "initTransform c i si" "transformations s" i] by simp
  have gs1: "groups s1 = groups s" by (simp add: s1_def)
  have g1: "grouped s1"
    unfolding grouped_def m1 gs1 using g by (simp only: grouped_def)
  from updateActiveTokens_fields [OF s2] have f2: "transformations s2 = transformations s1" "groups s2 = groups s1"
    by simp_all
  have g2: "grouped s2"
    unfolding grouped_def f2 using g1 by (simp only: grouped_def)
  show ?thesis
  proof (cases "groupId (transformations s2 ! i) = None")
    case False
    then have "s' = s2" by (simp only: s' if_False)
    with g2 show ?thesis by simp
  next
    case True
    let ?s3 = "s2\<lparr>groups := AList.update gc [] (groups s2)\<rparr>"
    have "grouped ?s3"
      using g2 unfolding grouped_iff by (auto simp: update_conv')
    moreover have "map_of (groups ?s3) gc \<noteq> None" by (simp add: update_conv')
    ultimately show ?thesis
      using True by (simp add: s' groupLoop_grouped)
  qed
qed

lemma forEachTransform_grouped:
  "forEachTransform si n is st = Some st' \<Longrightarrow> grouped (fst st) \<Longrightarrow> grouped (fst st')"
proof (induction "is" arbitrary: st)
  case Nil
  then show ?case by simp
next
  case (Cons i "is")
  from Cons.prems(1) obtain st1 where v: "visitTransform si n i st = Some st1"
    and f: "forEachTransform si n is st1 = Some st'"
    by (auto split: Option.bind_splits)
  obtain s c gc where st: "st = (s, c, gc)" by (cases st)
  obtain s1 c1 gc1 where st1: "st1 = (s1, c1, gc1)" by (cases st1)
  from visitTransform_grouped [OF v [unfolded st st1]] Cons.prems(2)
  have "grouped (fst st1)" by (simp add: st st1)
  from Cons.IH [OF f this] show ?case .
qed

lemma initSentence_safe:
  assumes "initSentence si c s = Some r"
    and raw: "list_all (\<lambda>t. tokensAffected t \<noteq> [] \<and> groupId t = None) (transformations s)"
  shows "acceptSafe (fst r)"
proof -
  define n where "n = length (transformations s)"
  define sa where "sa = s\<lparr>activeTokens := originalSentence s, groups := [], sentenceIndex_s := Some si\<rparr>"
  from assms(1) obtain sb cb gb where
    f: "forEachTransform si n [0 ..< n] (sa, c, 0) = Some (sb, cb, gb)"
    and s': "fst r = setIsAvailable [0 ..< n] sb"
    by (auto simp: initSentence_def Let_def n_def sa_def split: Option.bind_splits)
  have na: "n = length (transformations sa)" by (simp add: n_def sa_def)
  from forEachTransform_first [OF f na]
  have lb: "length (transformations sb) = n"
    and ib: "\<And>j. j < n \<Longrightarrow> initialised si (c + j) j (transformations sb ! j)"
    and kb: "map replayKey (transformations sb) = map replayKey (transformations s)"
    by (simp_all add: sa_def)
  have "grouped sa"
    using raw by (simp add: grouped_def sa_def list_all_iff)
  from forEachTransform_grouped [OF f] this have gb: "grouped sb" by simp
  have l': "length (transformations (fst r)) = n" by (simp add: s' lb)
  have nth': "transformations (fst r) ! j
      = (transformations sb ! j)\<lparr>isAvailable := Some (canMakeTransform sb (transformations sb ! j))\<rparr>"
    if "j < n" for j
    using that lb by (simp add: s' nth_setIsAvailable)
  have "tokensAffected (transformations (fst r) ! j) \<noteq> [] \<and> hasGroup (fst r) j" if j: "j < n" for j
  proof -
    have "replayKey (transformations sb ! j) = replayKey (transformations s ! j)"
      using arg_cong [OF kb, of "\<lambda>xs. xs ! j"] j lb by (simp add: n_def)
    then have "tokensAffected (transformations sb ! j) = tokensAffected (transformations s ! j)"
      by (simp add: replayKey_def)
    moreover have "tokensAffected (transformations s ! j) \<noteq> []"
      using raw j by (simp add: list_all_iff n_def)
    moreover from ib [OF j] obtain gid where gid: "groupId (transformations sb ! j) = Some gid"
      by (auto simp: initialised_def)
    moreover from gb gid j lb have "map_of (groups sb) gid \<noteq> None"
      by (simp add: grouped_iff)
    moreover have "groups (fst r) = groups sb" by (simp add: s')
    ultimately show ?thesis
      unfolding hasGroup_iff nth' [OF j] by auto
  qed
  then show ?thesis
    by (simp add: acceptSafe_def list_all_iff l')
qed

lemma setMetaData_safe:
  assumes "setMetaData d0 = Some d" and "asReturned d0"
  shows "acceptSafeDoc d"
proof (cases "rulesApplied d0")
  case None
  with assms(1) show ?thesis by (simp add: setMetaData_def acceptSafeDoc_def)
next
  case (Some ss0)
  with assms(1) obtain ss where f: "forEachSentence 0 0 ss0 = Some ss"
    and d: "d = d0\<lparr>rulesApplied := Some ss, hasMeta := True\<rparr>"
    by (auto simp: setMetaData_def split: Option.bind_splits)
  from forEachSentence_nth [OF f] have len: "length ss = length ss0"
    and nth: "\<And>k. k < length ss0 \<Longrightarrow> \<exists>c' r. initSentence k c' (ss0 ! k) = Some r \<and> ss ! k = fst r"
    by simp_all
  have "acceptSafe (ss ! k)" if "k < length ss0" for k
  proof -
    from nth [OF that] obtain c' r where r: "initSentence k c' (ss0 ! k) = Some r" "ss ! k = fst r"
      by blast
    have "list_all (\<lambda>t. tokensAffected t \<noteq> [] \<and> groupId t = None) (transformations (ss0 ! k))"
      using assms(2) Some nth_mem [OF that] by (simp add: asReturned_def list_all_iff)
    from initSentence_safe [OF r(1) this] show ?thesis by (simp add: r(2))
  qed
  then show ?thesis
    unfolding acceptSafeDoc_def d using len by (auto simp: list_all_iff in_set_conv_nth)
qed

lemma fresh_editor_safe:
  assumes "interactiveEditor d0 ignoreNoRepl = Some e" and "asReturned d0"
  shows "acceptSafeDoc (data e)"
proof -
  from assms have "\<not> hasMeta d0" by (simp add: asReturned_def)
  with assms(1) obtain d where d: "setMetaData d0 = Some d" and e: "data e = d"
    by (auto simp: interactiveEditor_def Let_def split: Option.bind_splits)
  from setMetaData_safe [OF d assms(2)] show ?thesis by (simp add: e)
qed


subsection \<open>Reading a transformation after writing it\<close>

lemma getTransform_updTransform:
  "getTransform (updTransform r f d) r = map_option f (getTransform d r)"
  by (auto simp: getTransform_def getSentence_updTransform updTransformIn_def split: option.splits)

lemma activeTokens_updTransform:
  "map_option activeTokens (getSentence (updTransform r f d) k) = map_option activeTokens (getSentence d k)"
  by (cases "getSentence d k") (simp_all add: getSentence_updTransform)

lemma tokensArePresent_Nil: "tokensArePresent [] toks"
  by (simp add: tokensArePresent_def)

text \<open>
  The offset that \<^verbatim>\<open>resetCorrection\<close> computes when persisting, after the writes to the
  transformation.
\<close>

lemma reset_offset:
  assumes t: "getTransform d r = Some transform" and k: "sentenceIndex transform = Some k"
    and s: "getSentence d k = Some sentence"
  shows "getTransform (updTransform r (\<lambda>t. t\<lparr>status := Some clean\<rparr>)
                         (updTransform r (\<lambda>t. t\<lparr>isAvailable := Some True\<rparr>) d)) r
           = Some (transform\<lparr>isAvailable := Some True, status := Some clean\<rparr>)"
    and "(getTransformOffset (updTransform r (\<lambda>t. t\<lparr>status := Some clean\<rparr>)
                               (updTransform r (\<lambda>t. t\<lparr>isAvailable := Some True\<rparr>) d))
             (transform\<lparr>isAvailable := Some True, status := Some clean\<rparr>) = None)
         \<longleftrightarrow> tokensAffected transform = [] \<and> activeTokens sentence \<noteq> []"
proof -
  let ?d3 = "updTransform r (\<lambda>t. t\<lparr>status := Some clean\<rparr>)
               (updTransform r (\<lambda>t. t\<lparr>isAvailable := Some True\<rparr>) d)"
  let ?t3 = "transform\<lparr>isAvailable := Some True, status := Some clean\<rparr>"
  show "getTransform ?d3 r = Some ?t3"
    by (simp add: getTransform_updTransform t)
  have "map_option activeTokens (getSentence ?d3 k) = Some (activeTokens sentence)"
    by (simp add: activeTokens_updTransform s)
  then obtain s3 where s3: "getSentence ?d3 k = Some s3" and a3: "activeTokens s3 = activeTokens sentence"
    by auto
  show "(getTransformOffset ?d3 ?t3 = None)
         \<longleftrightarrow> tokensAffected transform = [] \<and> activeTokens sentence \<noteq> []"
  proof (cases "tokensAffected transform")
    case Nil
    then show ?thesis
      by (simp add: getTransformOffset_def k s3 a3 canMakeTransform_def tokensArePresent_Nil
          getTransformOffsetHelper_def)
  next
    case (Cons x xs)
    then show ?thesis
      by (simp add: getTransformOffset_def k s3 a3 canMakeTransform_def
          getTransformOffsetHelper_def)
  qed
qed

section \<open>Grouping, replay and the defensive branch on a bridging transformation\<close>

text \<open>
  C2.  In \<open>bridgeDoc\<close> the second and the third transformation both affect token \<open>2\<close>,
  yet \<^verbatim>\<open>setMetaData\<close> gives them different group ids: the third joins group \<open>0\<close> through
  the first, and the scan that starts from it looks only at later positions.
\<close>

theorem C2_overlapping_transformations_in_different_groups:
  "map_option groupIdsOf (setMetaData bridgeDoc) = Some [[Some 0, Some 1, Some 0]] \<and>
   arraysOverlap [mkToken 2 ''b''] [mkToken 1 ''a'', mkToken 2 ''b''] compareTokens"
  by code_simp

text \<open>
  C1.  After accepting the second transformation, accepting the third (whose stale flag
  lets it through) and resetting the second, the active tokens are the original \<open>a b\<close>,
  the only accepted transformation is the third, and replaying it from the original
  tokens gives \<open>z\<close>.
\<close>

theorem C1_active_tokens_differ_from_replay:
  "map_option (\<lambda>r. (fst r, fst (snd r), fst (snd (snd r)),
       map_option (\<lambda>s. (activeTokens s, map status (transformations s), replayedTokens s))
         (getSentence (snd (snd (snd r))) 0))) bridgeScenario
   = Some (True, True, True,
       Some ([mkToken 1 ''a'', mkToken 2 ''b''],
             [Some clean, Some clean, Some accept],
             Some [mkToken 5 ''z'']))"
  by code_simp

text \<open>
  C9.  After the second transformation of \<open>bridgeDoc\<close> is accepted, the third still has
  \<^verbatim>\<open>isAvailable\<close> set although its tokens are gone; accepting it succeeds and leaves the
  active tokens as they were.
\<close>

theorem C9_defensive_branch_taken_during_accept:
  "(case setMetaData bridgeDoc of None \<Rightarrow> False | Some d \<Rightarrow>
     (case acceptCorrection d (0, 1) of None \<Rightarrow> False | Some r1 \<Rightarrow>
        fst r1 \<and> passesGuardNotPresent (snd r1) (0, 2) \<and>
        (case acceptCorrection (snd r1) (0, 2) of None \<Rightarrow> False | Some r2 \<Rightarrow>
           fst r2 \<and>
           map_option activeTokens (getSentence (snd r2) 0)
             = map_option activeTokens (getSentence (snd r1) 0))))"
  by code_simp

section \<open>The sentence offset\<close>

text \<open>
  C4.  For the second sentence of an initialized two-sentence document,
  \<^verbatim>\<open>getSentenceOffset\<close> returns the sentence object that \<^verbatim>\<open>find\<close> found, not the
  number \<open>2\<close> (the length of the text \<open>a \<close> before it).
\<close>

theorem C4_getSentenceOffset_returns_the_sentence:
  "(case setMetaData twoSentenceDoc of None \<Rightarrow> False | Some d \<Rightarrow>
     (case getSentence d 1 of None \<Rightarrow> False | Some s \<Rightarrow>
        getSentenceOffset d s = Some (SentenceObject s) \<and>
        getSentenceOffset d s \<noteq> Some (Number 2)))"
  by code_simp

section \<open>Undoing\<close>

text \<open>
  C10.  \<^verbatim>\<open>editor.undoAll\<close> returns at once and leaves the editor (the document with
  all its sentences and transformations, and the history stack) as it was: the editor has
  no property \<^verbatim>\<open>canUndoTransform\<close>.
\<close>

theorem C10_undoAll_changes_nothing: "undoAll persist e = Some (Some e)"
  by (subst undoAll.simps) (simp add: editorPropertyTruthy_def editorProperties_def)

theorem C10_undoAll_changes_nothing_witness:
  "(case bridgeEditor of None \<Rightarrow> False
    | Some e \<Rightarrow> transStackSize e = 1 \<and> undoAll True e = Some (Some e))"
proof -
  have "bridgeEditor \<noteq> None \<and> map_option transStackSize bridgeEditor = Some 1"
    by code_simp
  then obtain e where e: "bridgeEditor = Some e" "transStackSize e = 1"
    by auto
  show ?thesis
    using C10_undoAll_changes_nothing [of True e] by (simp add: e)
qed

section \<open>Resetting a clean transformation\<close>

text \<open>
  C7 (as the code has it).  For a clean transformation with a replacement,
  \<^verbatim>\<open>canUndoTransform\<close> is false, and \<^verbatim>\<open>resetCorrection\<close> returns false and leaves the
  document as it is.  For a clean transformation without a replacement,
  \<^verbatim>\<open>canUndoTransform\<close> is true and \<^verbatim>\<open>resetCorrection\<close> goes on: it sets \<^verbatim>\<open>isAvailable\<close>
  to true and \<^verbatim>\<open>status\<close> to clean, and it returns true, unless \<^verbatim>\<open>pt.persist\<close> is set and
  computing the text and the offset to be saved throws.  That happens when the
  transformation is in no sentence (\<^verbatim>\<open>getCurrentSentenceText\<close>), and when it affects no
  token while its sentence has active tokens (\<^verbatim>\<open>getTransformOffsetHelper\<close>).
\<close>

theorem C7_reset_of_a_clean_transformation:
  assumes "getTransform d r = Some transform"
    and "status transform = Some clean"
  shows "canUndoTransform sentence transform = (\<not> hasReplacement transform) \<and>
         resetCorrection persist d r =
           (if hasReplacement transform then Some (False, d)
            else if persist \<and>
                    (case sentenceOf d transform of
                       None \<Rightarrow> True
                     | Some ks \<Rightarrow> tokensAffected transform = [] \<and> activeTokens (snd ks) \<noteq> [])
                 then None
                 else Some (True, updTransform r (\<lambda>t. t\<lparr>status := Some clean\<rparr>)
                                    (updTransform r (\<lambda>t. t\<lparr>isAvailable := Some True\<rparr>) d)))"
proof (intro conjI)
  show "canUndoTransform sentence transform = (\<not> hasReplacement transform)"
    using assms(2) by (simp add: canUndoTransform_def isAccepted_def isRejected_def)
next
  have nc: "\<not> isAccepted transform" "\<not> isRejected transform"
    using assms(2) by (simp_all add: isAccepted_def isRejected_def)
  show "resetCorrection persist d r =
           (if hasReplacement transform then Some (False, d)
            else if persist \<and>
                    (case sentenceOf d transform of
                       None \<Rightarrow> True
                     | Some ks \<Rightarrow> tokensAffected transform = [] \<and> activeTokens (snd ks) \<noteq> [])
                 then None
                 else Some (True, updTransform r (\<lambda>t. t\<lparr>status := Some clean\<rparr>)
                                    (updTransform r (\<lambda>t. t\<lparr>isAvailable := Some True\<rparr>) d)))"
  proof (cases "sentenceOf d transform")
    case None
    then show ?thesis
      using assms(1) nc by (simp add: resetCorrection_def)
  next
    case (Some ks)
    obtain k s where ks: "ks = (k, s)" by (cases ks)
    from Some have k: "sentenceIndex transform = Some k" and s: "getSentence d k = Some s"
      by (auto simp: sentenceOf_def ks split: option.splits)
    show ?thesis
    proof (cases "hasReplacement transform")
      case True
      then show ?thesis
        using assms(1) nc Some by (simp add: resetCorrection_def ks canUndoTransform_def)
    next
      case False
      have u: "undoTransform k r d = Some (updTransform r (\<lambda>t. t\<lparr>isAvailable := Some True\<rparr>) d)"
        using False assms(1) s by (simp add: undoTransform_def)
      note off = reset_offset [OF assms(1) k s]
      show ?thesis
      proof (cases "getTransformOffset (updTransform r (\<lambda>t. t\<lparr>status := Some clean\<rparr>)
                               (updTransform r (\<lambda>t. t\<lparr>isAvailable := Some True\<rparr>) d))
             (transform\<lparr>isAvailable := Some True, status := Some clean\<rparr>)")
        case None
        with off(2) show ?thesis
          using assms(1) False Some u
          by (simp add: resetCorrection_def ks canUndoTransform_def Let_def off(1))
      next
        case (Some n)
        with off(2) have "\<not> (tokensAffected transform = [] \<and> activeTokens s \<noteq> [])"
          by simp
        then show ?thesis
          using assms(1) False \<open>sentenceOf d transform = Some ks\<close> u Some
          by (simp add: resetCorrection_def ks canUndoTransform_def Let_def off(1))
      qed
    qed
  qed
qed

text \<open>
  In \<open>bridgeDoc\<close> the second transformation is clean and has a replacement.  In
  \<open>commentDoc\<close> the second transformation is clean and has none.
\<close>

theorem C7_reset_of_a_clean_transformation_witness:
  "(case setMetaData bridgeDoc of None \<Rightarrow> False | Some d \<Rightarrow>
     (case getTransform d (0, 1) of None \<Rightarrow> False | Some t \<Rightarrow>
        status t = Some clean \<and> hasReplacement t \<and>
        (case getSentence d 0 of None \<Rightarrow> False | Some s \<Rightarrow> \<not> canUndoTransform s t) \<and>
        resetCorrection True d (0, 1) = Some (False, d))) \<and>
   (case setMetaData commentDoc of None \<Rightarrow> False | Some d \<Rightarrow>
     (case getTransform d (0, 1) of None \<Rightarrow> False | Some t \<Rightarrow>
        status t = Some clean \<and> \<not> hasReplacement t \<and>
        (case getSentence d 0 of None \<Rightarrow> False | Some s \<Rightarrow> canUndoTransform s t) \<and>
        resetCorrection True d (0, 1) =
          Some (True, updTransform (0, 1) (\<lambda>t. t\<lparr>status := Some clean\<rparr>)
                        (updTransform (0, 1) (\<lambda>t. t\<lparr>isAvailable := Some True\<rparr>) d))))"
proof -
  have "(case setMetaData bridgeDoc of None \<Rightarrow> False | Some d \<Rightarrow>
     (case getTransform d (0, 1) of None \<Rightarrow> False | Some t \<Rightarrow>
        (case getSentence d 0 of None \<Rightarrow> False | Some s \<Rightarrow>
           status t = Some clean \<and> hasReplacement t)))"
    by code_simp
  then obtain d t s where f: "setMetaData bridgeDoc = Some d" "getTransform d (0, 1) = Some t"
      "getSentence d 0 = Some s" "status t = Some clean" "hasReplacement t"
    by (auto split: option.splits)
  have "(case setMetaData commentDoc of None \<Rightarrow> False | Some d \<Rightarrow>
     (case getTransform d (0, 1) of None \<Rightarrow> False | Some t \<Rightarrow>
        (case getSentence d 0 of None \<Rightarrow> False | Some s \<Rightarrow>
           status t = Some clean \<and> \<not> hasReplacement t \<and> tokensAffected t \<noteq> [] \<and>
           sentenceOf d t = Some (0, s))))"
    by code_simp
  then obtain d' t' s' where g: "setMetaData commentDoc = Some d'" "getTransform d' (0, 1) = Some t'"
      "getSentence d' 0 = Some s'" "status t' = Some clean" "\<not> hasReplacement t'"
      "tokensAffected t' \<noteq> []" "sentenceOf d' t' = Some (0, s')"
    by (auto split: option.splits)
  show ?thesis
    using C7_reset_of_a_clean_transformation [OF f(2) f(4), of s True]
      C7_reset_of_a_clean_transformation [OF g(2) g(4), of s' True] f g
    by simp
qed

text \<open>
  The comment-only transformation of \<open>commentDoc\<close> is clean and not available, since its
  token is not in the sentence yet.  \<^verbatim>\<open>canUndoTransform\<close> is true for it, and
  \<^verbatim>\<open>resetCorrection\<close> returns true and makes it available.
\<close>

theorem C7_clean_comment_can_be_undone:
  "(case setMetaData commentDoc of None \<Rightarrow> False | Some d \<Rightarrow>
     (case getTransform d (0, 1) of None \<Rightarrow> False | Some t \<Rightarrow>
        isClean t \<and> isAvailable t = Some False \<and>
        (case getSentence d 0 of None \<Rightarrow> False | Some s \<Rightarrow> canUndoTransform s t) \<and>
        (case resetCorrection True d (0, 1) of None \<Rightarrow> False | Some res \<Rightarrow>
           fst res \<and> snd res \<noteq> d \<and>
           map_option isAvailable (getTransform (snd res) (0, 1)) = Some (Some True))))"
  by code_simp

section \<open>The availability cache\<close>

text \<open>
  C3 (as the code has it).  Right after \<^verbatim>\<open>setMetaData\<close> every flag agrees with
  \<^verbatim>\<open>tokensArePresent\<close>.  A successful accept sets the flag of the accepted
  transformation to false, a successful reset sets the flag of the reset transformation to
  true; when that transformation has a replacement, the flags of the other members of its
  group are recomputed and agree with \<^verbatim>\<open>tokensArePresent\<close> on the new active tokens; the
  flags of all transformations outside the group are left as they were.  A successful reject
  changes nothing but the status and the flag of the rejected transformation, which
  becomes false.
\<close>

theorem C3_availability_flags:
  "(setMetaData d0 = Some d1 \<longrightarrow> allFlagsAccurate d1) \<and>
   (getSentence d k = Some s \<and> j < length (transformations s) \<and>
    sentenceIndex (transformations s ! j) = Some k \<longrightarrow>
      (\<forall>d'. acceptCorrection d (k, j) = Some (True, d') \<longrightarrow>
         (case getSentence d' k of
            None \<Rightarrow> False
          | Some s' \<Rightarrow>
              isAvailable (transformations s' ! j) = Some False \<and>
              (hasReplacement (transformations s ! j) \<longrightarrow> othersInGroupAccurate s' j) \<and>
              otherFlagsKept s s' j)) \<and>
      (\<forall>d'. rejectCorrection d (k, j) = Some (True, d') \<longrightarrow>
         d' = updTransform (k, j) (\<lambda>t. t\<lparr>status := Some reject, isAvailable := Some False\<rparr>) d) \<and>
      (\<forall>persist d'. resetCorrection persist d (k, j) = Some (True, d') \<longrightarrow>
         (case getSentence d' k of
            None \<Rightarrow> False
          | Some s' \<Rightarrow>
              isAvailable (transformations s' ! j) = Some True \<and>
              (hasReplacement (transformations s ! j) \<longrightarrow> othersInGroupAccurate s' j) \<and>
              otherFlagsKept s s' j)))"
proof (intro conjI impI allI)
  assume "setMetaData d0 = Some d1"
  then show "allFlagsAccurate d1" by (rule setMetaData_accurate)
next
  fix d'
  assume h: "getSentence d k = Some s \<and> j < length (transformations s) \<and>
    sentenceIndex (transformations s ! j) = Some k"
    and a: "acceptCorrection d (k, j) = Some (True, d')"
  from h have g: "getSentence d k = Some s" and j: "j < length (transformations s)"
    and si: "sentenceIndex (transformations s ! j) = Some k" by simp_all
  from a obtain s' where s': "acceptIn j s = Some (True, s')" and d': "d' = putSentence k s' d"
    by (auto simp: acceptCorrection_sentence [OF g j si])
  from acceptIn_True [OF s'] obtain s2 where
    s2: "(if hasReplacement (transformations s ! j)
               then do {
                 toks \<leftarrow> replaceTokens (activeTokens s) (tokensAffected (transformations s ! j))
                           (tokensAdded (transformations s ! j));
                 refreshGroupIn j (s\<lparr>activeTokens := toks\<rparr>) }
               else Some s) = Some s2"
    and e: "s' = updTransformIn j ((\<lambda>t. t\<lparr>status := Some accept\<rparr>) \<circ> (\<lambda>t. t\<lparr>isAvailable := Some False\<rparr>)) s2"
    by blast
  have gd: "getSentence d' k = Some s'"
    using g by (simp add: d' getSentence_put)
  show "case getSentence d' k of
            None \<Rightarrow> False
          | Some s' \<Rightarrow>
              isAvailable (transformations s' ! j) = Some False \<and>
              (hasReplacement (transformations s ! j) \<longrightarrow> othersInGroupAccurate s' j) \<and>
              otherFlagsKept s s' j"
    using spliceIn_result(2,3,4) [OF s2 j, of "(\<lambda>t. t\<lparr>status := Some accept\<rparr>) \<circ> (\<lambda>t. t\<lparr>isAvailable := Some False\<rparr>)"]
    by (simp add: gd e)
next
  fix d'
  assume h: "getSentence d k = Some s \<and> j < length (transformations s) \<and>
    sentenceIndex (transformations s ! j) = Some k"
    and a: "rejectCorrection d (k, j) = Some (True, d')"
  from h have g: "getSentence d k = Some s" and j: "j < length (transformations s)"
    and si: "sentenceIndex (transformations s ! j) = Some k" by simp_all
  from a show "d' = updTransform (k, j) (\<lambda>t. t\<lparr>status := Some reject, isAvailable := Some False\<rparr>) d"
    by (auto simp: rejectCorrection_sentence [OF g j si] rejectIn_def updTransform_put [OF g]
        split: if_splits Option.bind_splits)
next
  fix persist d'
  assume h: "getSentence d k = Some s \<and> j < length (transformations s) \<and>
    sentenceIndex (transformations s ! j) = Some k"
    and a: "resetCorrection persist d (k, j) = Some (True, d')"
  from h have g: "getSentence d k = Some s" and j: "j < length (transformations s)"
    and si: "sentenceIndex (transformations s ! j) = Some k" by simp_all
  from a obtain s' where s': "resetIn persist j s = Some (True, s')" and d': "d' = putSentence k s' d"
    by (auto simp: resetCorrection_sentence [OF g j si])
  from resetIn_True [OF s'] obtain s2 where
    s2: "(if hasReplacement (transformations s ! j)
               then do {
                 toks \<leftarrow> replaceTokens (activeTokens s) (tokensAdded (transformations s ! j))
                           (tokensAffected (transformations s ! j));
                 refreshGroupIn j (s\<lparr>activeTokens := toks\<rparr>) }
               else Some s) = Some s2"
    and e: "s' = updTransformIn j ((\<lambda>t. t\<lparr>status := Some clean\<rparr>) \<circ> (\<lambda>t. t\<lparr>isAvailable := Some True\<rparr>)) s2"
    by blast
  have gd: "getSentence d' k = Some s'"
    using g by (simp add: d' getSentence_put)
  show "case getSentence d' k of
            None \<Rightarrow> False
          | Some s' \<Rightarrow>
              isAvailable (transformations s' ! j) = Some True \<and>
              (hasReplacement (transformations s ! j) \<longrightarrow> othersInGroupAccurate s' j) \<and>
              otherFlagsKept s s' j"
    using spliceIn_result(2,3,4) [OF s2 j, of "(\<lambda>t. t\<lparr>status := Some clean\<rparr>) \<circ> (\<lambda>t. t\<lparr>isAvailable := Some True\<rparr>)"]
    by (simp add: gd e)
qed

text \<open>
  After the second transformation of \<open>bridgeDoc\<close> is rejected its flag is false while its
  affected token is still present.
\<close>

theorem C3_rejected_flag_differs_from_presence:
  "(case setMetaData bridgeDoc of None \<Rightarrow> False | Some d \<Rightarrow>
     (case rejectCorrection d (0, 1) of None \<Rightarrow> False | Some res \<Rightarrow>
        fst res \<and> \<not> allFlagsAccurate (snd res)))"
  by code_simp

theorem C3_availability_flags_witness:
  "(case setMetaData bridgeDoc of None \<Rightarrow> False | Some d \<Rightarrow>
      allFlagsAccurate d \<and>
      (case acceptCorrection d (0, 0) of None \<Rightarrow> False | Some res \<Rightarrow>
         fst res \<and>
         (case getSentence (snd res) 0 of None \<Rightarrow> False | Some s' \<Rightarrow>
            isAvailable (transformations s' ! 0) = Some False \<and> othersInGroupAccurate s' 0 \<and>
            groupOf s' 0 = [0, 2])))"
proof -
  have "(case setMetaData bridgeDoc of None \<Rightarrow> False | Some d \<Rightarrow>
      (case getSentence d 0 of None \<Rightarrow> False | Some s \<Rightarrow>
         0 < length (transformations s) \<and> sentenceIndex (transformations s ! 0) = Some 0 \<and>
         hasReplacement (transformations s ! 0) \<and>
         (case acceptCorrection d (0, 0) of None \<Rightarrow> False | Some res \<Rightarrow>
            fst res \<and>
            (case getSentence (snd res) 0 of None \<Rightarrow> False | Some s' \<Rightarrow> groupOf s' 0 = [0, 2]))))"
    by code_simp
  then obtain d s d' s' where f: "setMetaData bridgeDoc = Some d" "getSentence d 0 = Some s"
      "0 < length (transformations s)" "sentenceIndex (transformations s ! 0) = Some 0"
      "hasReplacement (transformations s ! 0)" "acceptCorrection d (0, 0) = Some (True, d')"
      "getSentence d' 0 = Some s'" "groupOf s' 0 = [0, 2]"
    by (auto split: option.splits)
  show ?thesis
    using C3_availability_flags [of bridgeDoc d d 0 s 0] f
    by (auto split: option.splits)
qed

section \<open>Accept followed by reset\<close>

text \<open>
  Where the round trip works.  Let \<open>t\<close> be a transformation of a sentence with
  \<^verbatim>\<open>isAvailable\<close> true and at least one affected token.  If \<open>t\<close> has a replacement,
  let moreover its group be in the group table, let the active tokens be
  \<open>before @ tokensAffected t @ after\<close>, and let affected and added tokens be \<open>spliceable\<close>
  after \<open>before\<close>.  Then \<^verbatim>\<open>acceptCorrection\<close> followed by \<^verbatim>\<open>resetCorrection\<close> both
  succeed, the active tokens are what they were, the status of \<open>t\<close> is clean and its
  flag is true again.
\<close>

lemma accept_then_reset_restores:
  assumes "getSentence d k = Some s" and "j < length (transformations s)"
    and "transformations s ! j = t"
    and "sentenceIndex t = Some k"
    and "isAvailable t = Some True"
    and "tokensAffected t \<noteq> []"
    and "hasReplacement t \<longrightarrow>
          hasGroup s j \<and> activeTokens s = before @ tokensAffected t @ after \<and>
          spliceable before (tokensAffected t) (tokensAdded t)"
  shows "\<exists>d1 d2 s2.
           acceptCorrection d (k, j) = Some (True, d1) \<and>
           resetCorrection persist d1 (k, j) = Some (True, d2) \<and>
           getSentence d2 k = Some s2 \<and>
           activeTokens s2 = activeTokens s \<and>
           status (transformations s2 ! j) = Some clean \<and>
           isAvailable (transformations s2 ! j) = Some True"
proof -
  from accept_reset_sentence [OF assms(2,3,5,6,7), of persist] obtain s1 s2 where
    a: "acceptIn j s = Some (True, s1)" and r: "resetIn persist j s1 = Some (True, s2)"
    and len: "length (transformations s1) = length (transformations s)"
    and si: "sentenceIndex (transformations s1 ! j) = sentenceIndex t"
    and res: "activeTokens s2 = activeTokens s" "status (transformations s2 ! j) = Some clean"
      "isAvailable (transformations s2 ! j) = Some True"
    by blast
  define d1 where "d1 = putSentence k s1 d"
  define d2 where "d2 = putSentence k s2 d1"
  have si0: "sentenceIndex (transformations s ! j) = Some k"
    using assms(3,4) by simp
  have g1: "getSentence d1 k = Some s1"
    using assms(1) by (simp add: d1_def getSentence_put)
  have a': "acceptCorrection d (k, j) = Some (True, d1)"
    using acceptCorrection_sentence [OF assms(1,2) si0] a by (simp add: d1_def)
  have j1: "j < length (transformations s1)" using len assms(2) by simp
  have si1: "sentenceIndex (transformations s1 ! j) = Some k" using si assms(4) by simp
  have r': "resetCorrection persist d1 (k, j) = Some (True, d2)"
    using resetCorrection_sentence [OF g1 j1 si1, of persist] r by (simp add: d2_def)
  have g2: "getSentence d2 k = Some s2"
    using g1 by (simp add: d2_def getSentence_put)
  show ?thesis
    using a' r' g2 res by blast
qed

text \<open>
  C6.  In \<open>bridgeDoc\<close>, after the second transformation is accepted, the third still has
  \<^verbatim>\<open>isAvailable\<close> true and status clean.  \<^verbatim>\<open>acceptCorrection\<close> on it returns true and
  leaves the active tokens \<open>a y\<close> as they are.  \<^verbatim>\<open>resetCorrection\<close> on it then returns
  false and changes nothing: the status stays accepted and \<^verbatim>\<open>isAvailable\<close> stays false.
\<close>

theorem C6_reset_after_accept_fails:
  "(case setMetaData bridgeDoc of None \<Rightarrow> False | Some d \<Rightarrow>
     (case acceptCorrection d (0, 1) of None \<Rightarrow> False | Some r1 \<Rightarrow>
        fst r1 \<and>
        map_option (\<lambda>t. (isAvailable t, status t)) (getTransform (snd r1) (0, 2))
          = Some (Some True, Some clean) \<and>
        (case acceptCorrection (snd r1) (0, 2) of None \<Rightarrow> False | Some r2 \<Rightarrow>
           fst r2 \<and>
           map_option activeTokens (getSentence (snd r2) 0) = Some [mkToken 1 ''a'', mkToken 4 ''y''] \<and>
           resetCorrection True (snd r2) (0, 2) = Some (False, snd r2) \<and>
           resetCorrection False (snd r2) (0, 2) = Some (False, snd r2) \<and>
           map_option (\<lambda>t. (isAvailable t, status t)) (getTransform (snd r2) (0, 2))
             = Some (Some False, Some accept))))"
  by code_simp

text \<open>
  A second way in which the round trip fails, right after the metadata pass: once the
  deletion of \<open>deletionDoc\<close> is accepted, \<^verbatim>\<open>resetCorrection\<close> throws.  \<^verbatim>\<open>undoTransform\<close>
  calls \<^verbatim>\<open>replaceTokens\<close> with the empty \<^verbatim>\<open>tokensAdded\<close> as the tokens to replace, and
  \<^verbatim>\<open>replaceTokens\<close> reads \<^verbatim>\<open>affected[0].id\<close>.
\<close>

lemma reset_of_an_accepted_deletion_throws:
  "(case setMetaData deletionDoc of None \<Rightarrow> False | Some d \<Rightarrow>
     map_option isAvailable (getTransform d (0, 0)) = Some (Some True) \<and>
     (case acceptCorrection d (0, 0) of None \<Rightarrow> False | Some r1 \<Rightarrow>
        fst r1 \<and>
        map_option activeTokens (getSentence (snd r1) 0) = Some [mkToken 1 ''a''] \<and>
        resetCorrection True (snd r1) (0, 0) = None \<and>
        resetCorrection False (snd r1) (0, 0) = None))"
  by code_simp

section \<open>Running the metadata pass again\<close>

text \<open>
  \<^verbatim>\<open>setMetaData\<close> does not look at \<^verbatim>\<open>hasMeta\<close>.  Called on the document it has just
  produced, it leaves \<^verbatim>\<open>activeTokens\<close>, \<^verbatim>\<open>sentenceIndex\<close>, \<^verbatim>\<open>groupId\<close>,
  \<^verbatim>\<open>transformIndex\<close>, \<^verbatim>\<open>indexInSentence\<close>, \<^verbatim>\<open>status\<close>, \<^verbatim>\<open>isAvailable\<close> and
  \<^verbatim>\<open>hasMeta\<close> as they are and empties \<^verbatim>\<open>groups\<close> of every sentence.
  \<^verbatim>\<open>interactiveEditor\<close> does not call it on a document with \<^verbatim>\<open>hasMeta\<close> set.
\<close>

lemma setMetaData_again:
  assumes "setMetaData d0 = Some d"
  shows "setMetaData d = Some (clearGroups d) \<and>
         (rulesApplied d0 \<noteq> None \<longrightarrow>
            hasMeta d \<and> (\<exists>e. interactiveEditor d ignoreNoRepl = Some e \<and> data e = d))"
proof (cases "rulesApplied d0")
  case None
  with assms have "d = d0" by (simp add: setMetaData_def)
  with None show ?thesis by (simp add: setMetaData_def clearGroups_def)
next
  case (Some ss)
  with assms obtain ss' where f: "forEachSentence 0 0 ss = Some ss'"
    and d: "d = d0\<lparr>rulesApplied := Some ss', hasMeta := True\<rparr>"
    by (auto simp: setMetaData_def split: Option.bind_splits)
  have "setMetaData d = Some (clearGroups d)"
    using forEachSentence_again [OF f] by (simp add: setMetaData_def d clearGroups_def)
  moreover have "hasMeta d" by (simp add: d)
  moreover have "\<exists>e. interactiveEditor d ignoreNoRepl = Some e \<and> data e = d"
    by (simp add: interactiveEditor_def d Let_def)
  ultimately show ?thesis by simp
qed

text \<open>
  C5.  A second \<^verbatim>\<open>setMetaData\<close> on the initialized \<open>bridgeDoc\<close> is not a no-op: it empties
  the group table \<open>{0: [t0, t2], 1: [t1]}\<close> of the sentence and rebuilds no group, since
  every \<^verbatim>\<open>groupId\<close> is set already.  Everything else is as before.  Accepting the second
  transformation succeeded before the second call; after it, the accept throws in
  \<^verbatim>\<open>updateTokenGroup\<close>, where \<^verbatim>\<open>sentence.groups[transform.groupId]\<close> is \<^verbatim>\<open>undefined\<close>.
\<close>

theorem C5_second_metadata_pass_empties_the_group_table:
  "(case setMetaData bridgeDoc of None \<Rightarrow> False | Some d \<Rightarrow>
     (case setMetaData d of None \<Rightarrow> False | Some d2 \<Rightarrow>
        d2 \<noteq> d \<and>
        map_option (map groups) (rulesApplied d) = Some [[(0, [0, 2]), (1, [1])]] \<and>
        map_option (map groups) (rulesApplied d2) = Some [[]] \<and>
        groupIdsOf d2 = [[Some 0, Some 1, Some 0]] \<and>
        d2 = clearGroups d \<and>
        map_option fst (acceptCorrection d (0, 1)) = Some True \<and>
        acceptCorrection d2 (0, 1) = None))"
  by code_simp

section \<open>\<^verbatim>\<open>applyAll\<close> with suggestions skipped\<close>

text \<open>
  C8.  The transformations of a sentence come in the order in which the correction
  pipeline made them, as the comments in \<^verbatim>\<open>setMetaData\<close> and on \<^verbatim>\<open>transformsOverlap\<close>
  say: none affects a token that it adds itself or that a later one adds.  Let the
  editor be over such a document, with every transformation carrying the index of its
  sentence and with the cache that \<^verbatim>\<open>updateAvailableCache\<close> computes (\<open>editorOK\<close>; by
  \<open>fresh_editorOK\<close> the editor made on a document with transformations in that order is
  such an editor).  Then \<^verbatim>\<open>editor.applyAll(true)\<close> ends after finitely many iterations,
  and every transformation it has called \<^verbatim>\<open>acceptCorrection\<close> on has \<^verbatim>\<open>isSuggestion\<close>
  false.  If moreover every transformation affects at least one token and the groups are
  in the group tables (\<open>acceptSafeDoc\<close>; by \<open>fresh_editor_safe\<close> this holds for the editor
  made on a document as the service returns it), no accept throws: \<^verbatim>\<open>applyAll\<close>
  returns, and no transformation that is not a suggestion is available any more.
\<close>

theorem C8_applyAll_skipping_suggestions:
  assumes "editorOK e"
  shows "\<exists>res calls. applyAll True e [] = Some (res, calls) \<and>
           list_all (\<lambda>t. \<not> isSuggestion t) calls \<and>
           (acceptSafeDoc (data e) \<longrightarrow> (\<exists>e'. res = Some e' \<and> \<not> hasNextTransform True e'))"
proof -
  from applyAll_terminates [OF assms, of "[]"] obtain y where y: "applyAll True e [] = Some y"
    by blast
  from applyAll_calls [OF y] have "list_all (\<lambda>t. \<not> isSuggestion t) (snd y)" by simp
  moreover from applyAll_returns [OF y] assms
  have "acceptSafeDoc (data e) \<longrightarrow> (\<exists>e'. fst y = Some e' \<and> \<not> hasNextTransform True e')"
    by simp
  ultimately show ?thesis using y by (cases y) auto
qed

text \<open>
  The editor made on \<open>bridgeDoc\<close>.  Its first transformation is a suggestion; it is still
  available when \<^verbatim>\<open>applyAll(true)\<close> has returned.
\<close>

theorem C8_applyAll_skipping_suggestions_witness:
  "\<exists>e e' calls. interactiveEditor bridgeDoc False = Some e \<and> editorOK e \<and>
       acceptSafeDoc (data e) \<and> applyAll True e [] = Some (Some e', calls) \<and>
       list_all (\<lambda>t. \<not> isSuggestion t) calls \<and>
       \<not> hasNextTransform True e' \<and> hasNextTransform False e'"
proof -
  have "\<not> hasMeta bridgeDoc \<and> topologicalDoc bridgeDoc \<and> asReturned bridgeDoc \<and>
        interactiveEditor bridgeDoc False \<noteq> None"
    by code_simp
  then obtain e where e: "interactiveEditor bridgeDoc False = Some e"
    and b: "\<not> hasMeta bridgeDoc" "topologicalDoc bridgeDoc" "asReturned bridgeDoc"
    by auto
  have ok: "editorOK e" by (rule fresh_editorOK [OF e b(1,2)])
  have safe: "acceptSafeDoc (data e)" by (rule fresh_editor_safe [OF e b(3)])
  from C8_applyAll_skipping_suggestions [OF ok] safe obtain e' calls where
    r: "applyAll True e [] = Some (Some e', calls)" "list_all (\<lambda>t. \<not> isSuggestion t) calls"
      "\<not> hasNextTransform True e'"
    by auto
  have "case interactiveEditor bridgeDoc False of
          None \<Rightarrow> False
        | Some e \<Rightarrow>
            (case applyAll True e [] of
               None \<Rightarrow> False
             | Some y \<Rightarrow> (case fst y of None \<Rightarrow> False | Some e' \<Rightarrow> hasNextTransform False e'))"
    by code_simp
  then have "hasNextTransform False e'" by (simp add: e r(1))
  with e ok safe r show ?thesis by blast
qed

end
